theory Spec2Isabelle
  imports
    Complex_Main
    "HOL-Library.Sublist"
    "HOL-Library.List_Lexorder"
    "HOL-Library.Char_ord"
begin

section \<open>Financial crime graph analysis engine\<close>

text \<open>
  A shallow embedding of the detection pipeline of the engine (the version with the
  legitimate-business filter). Conventions of the embedding:
  \<^item> a JavaScript \<open>number\<close> holding an amount or a score is a \<open>real\<close>: arithmetic is
    exact, the rounding of IEEE doubles is not modelled;
  \<^item> a string is a list of 8-bit characters; \<open><\<close> on strings is the lexicographic
    order on character codes, as JavaScript's comparison of code units;
  \<^item> a \<open>Map\<close> is an association list in insertion order with distinct keys, a
    \<open>Set\<close> is a duplicate-free list in insertion order: iteration over either follows
    the list;
  \<^item> \<open>new Date(s).getTime()\<close> belongs to the platform, not to the engine: it is the
    parameter \<open>getTime\<close>, whose value \<open>None\<close> stands for \<open>NaN\<close>;
  \<^item> closures that mutate variables of the enclosing function take and return the
    state explicitly;
  \<^item> the elapsed wall-clock time of the summary is left out.
\<close>

subsection \<open>Data model\<close>

record Transaction =
  transaction_id :: string
  sender_id :: string
  receiver_id :: string
  amount :: real
  timestamp :: string

record SuspiciousAccount =
  account_id :: string
  suspicion_score :: real
  detected_patterns :: "string list"
  primary_ring_id :: string

record FraudRing =
  ring_id :: string
  member_accounts :: "string list"
  pattern_type :: string
  risk_score :: real

record AnalysisSummary =
  total_accounts_analyzed :: nat
  suspicious_accounts_flagged :: nat
  fraud_rings_detected :: nat
  legitimate_accounts_filtered :: nat

record GraphNode =
  node_id :: string
  suspicious :: bool
  ring_ids :: "string list"
  patterns :: "string list"
  total_sent :: real
  total_received :: real
  transaction_count :: nat
  node_suspicion_score :: real

record GraphEdge =
  source :: string
  target :: string
  edge_amount :: real
  edge_timestamp :: string
  edge_transaction_id :: string

record AnalysisResult =
  suspicious_accounts :: "SuspiciousAccount list"
  fraud_rings :: "FraudRing list"
  summary :: AnalysisSummary
  nodes :: "GraphNode list"
  edges :: "GraphEdge list"

subsection \<open>Insertion-ordered sets and maps\<close>

text \<open>\<open>Set.add\<close>: a new element goes to the end, a present one changes nothing.\<close>

definition setAdd :: "'a \<Rightarrow> 'a list \<Rightarrow> 'a list" where
  "setAdd x s = (if x \<in> set s then s else s @ [x])"

text \<open>\<open>new Set(iterable)\<close>: the elements are added one by one.\<close>

definition newSet :: "'a list \<Rightarrow> 'a list" where
  "newSet xs = foldl (\<lambda>s x. setAdd x s) [] xs"

text \<open>\<open>Map.has\<close> and \<open>Map.get\<close>.\<close>

definition mapHas :: "'k \<Rightarrow> ('k \<times> 'v) list \<Rightarrow> bool" where
  "mapHas k m = (k \<in> set (map fst m))"

definition mapGet :: "('k \<times> 'v) list \<Rightarrow> 'k \<Rightarrow> 'v option" where
  "mapGet m k = map_of m k"

text \<open>\<open>if (!m.has(k)) m.set(k, v0)\<close>: a missing key is appended with the initial value.\<close>

definition mapInit :: "'k \<Rightarrow> 'v \<Rightarrow> ('k \<times> 'v) list \<Rightarrow> ('k \<times> 'v) list" where
  "mapInit k v0 m = (if mapHas k m then m else m @ [(k, v0)])"

text \<open>Mutation of the object stored under a key; the key keeps its position.\<close>

definition mapModify :: "'k \<Rightarrow> ('v \<Rightarrow> 'v) \<Rightarrow> ('k \<times> 'v) list \<Rightarrow> ('k \<times> 'v) list" where
  "mapModify k f m = map (\<lambda>(k', v). if k' = k then (k', f v) else (k', v)) m"

text \<open>\<open>Map.set\<close>: a present key keeps its position, a new key is appended.\<close>

definition mapSet :: "'k \<Rightarrow> 'v \<Rightarrow> ('k \<times> 'v) list \<Rightarrow> ('k \<times> 'v) list" where
  "mapSet k v m = (if mapHas k m then mapModify k (\<lambda>_. v) m else m @ [(k, v)])"

subsection \<open>Strings\<close>

text \<open>\<open>String.prototype.toUpperCase\<close> on the letters \<open>a\<close> to \<open>z\<close>; other characters
  are unchanged. Account names are taken to be ASCII: JavaScript also changes letters
  outside ASCII (\<open>U+00DF\<close> becomes \<open>SS\<close>), which the model leaves as they are.\<close>

definition toUpperChar :: "char \<Rightarrow> char" where
  "toUpperChar c =
     (case map_of (zip ''abcdefghijklmnopqrstuvwxyz'' ''ABCDEFGHIJKLMNOPQRSTUVWXYZ'') c of
        None \<Rightarrow> c
      | Some u \<Rightarrow> u)"

definition toUpperCase :: "string \<Rightarrow> string" where
  "toUpperCase s = map toUpperChar s"

text \<open>\<open>String.prototype.includes\<close>: the keyword occurs as a contiguous substring.\<close>

fun strIncludes :: "string \<Rightarrow> string \<Rightarrow> bool" where
  "strIncludes [] kw = (kw = [])"
| "strIncludes (c # s) kw = (prefix kw (c # s) \<or> strIncludes s kw)"

text \<open>\<open>Array.prototype.join\<close>.\<close>

fun join :: "string \<Rightarrow> string list \<Rightarrow> string" where
  "join sep [] = []"
| "join sep [x] = x"
| "join sep (x # y # ys) = x @ sep @ join sep (y # ys)"

text \<open>\<open>String(n)\<close> for a non-negative integer: its decimal digits.\<close>

definition digit :: "nat \<Rightarrow> char" where
  "digit k = ''0123456789'' ! k"

function stringOfNat :: "nat \<Rightarrow> string" where
  "stringOfNat n = (if n < 10 then [digit n] else stringOfNat (n div 10) @ [digit (n mod 10)])"
  by pat_completeness auto
termination
  by (relation "measure id") auto

text \<open>\<open>String.prototype.padStart\<close> with a one-character filler.\<close>

definition padStart :: "nat \<Rightarrow> char \<Rightarrow> string \<Rightarrow> string" where
  "padStart w c s = replicate (w - length s) c @ s"

subsection \<open>Numbers\<close>

text \<open>\<open>Math.round\<close> rounds half up; \<open>Math.round(x * 10) / 10\<close> keeps one decimal.\<close>

definition mathRound :: "real \<Rightarrow> int" where
  "mathRound x = \<lfloor>x + 1 / 2\<rfloor>"

definition round1 :: "real \<Rightarrow> real" where
  "round1 x = real_of_int (mathRound (x * 10)) / 10"

subsection \<open>Per-account statistics\<close>

record AccountStats =
  totalSent :: real
  totalReceived :: real
  sendCount :: nat
  receiveCount :: nat
  senders :: "string list"
  receivers :: "string list"
  transactionTimestamps :: "int option list"
  totalTransactions :: nat

definition emptyStats :: AccountStats where
  "emptyStats = \<lparr>totalSent = 0, totalReceived = 0, sendCount = 0, receiveCount = 0,
     senders = [], receivers = [], transactionTimestamps = [], totalTransactions = 0\<rparr>"

definition statsSend :: "Transaction \<Rightarrow> int option \<Rightarrow> AccountStats \<Rightarrow> AccountStats" where
  "statsSend tx ts s = s\<lparr>totalSent := totalSent s + amount tx,
     sendCount := sendCount s + 1,
     receivers := setAdd (receiver_id tx) (receivers s),
     transactionTimestamps := transactionTimestamps s @ [ts],
     totalTransactions := totalTransactions s + 1\<rparr>"

definition statsReceive :: "Transaction \<Rightarrow> int option \<Rightarrow> AccountStats \<Rightarrow> AccountStats" where
  "statsReceive tx ts s = s\<lparr>totalReceived := totalReceived s + amount tx,
     receiveCount := receiveCount s + 1,
     senders := setAdd (sender_id tx) (senders s),
     transactionTimestamps := transactionTimestamps s @ [ts],
     totalTransactions := totalTransactions s + 1\<rparr>"

text \<open>One iteration of the loop of \<open>computeAccountStats\<close>: both entries are created
  first, then the sender's object is updated, then the receiver's (the same object when
  a transaction is a self-transfer).\<close>

definition statsStep ::
  "(string \<Rightarrow> int option) \<Rightarrow> (string \<times> AccountStats) list \<Rightarrow> Transaction
     \<Rightarrow> (string \<times> AccountStats) list" where
  "statsStep getTime stats tx =
     (let stats1 = mapInit (sender_id tx) emptyStats stats;
          stats2 = mapInit (receiver_id tx) emptyStats stats1;
          ts = getTime (timestamp tx);
          stats3 = mapModify (sender_id tx) (statsSend tx ts) stats2
      in mapModify (receiver_id tx) (statsReceive tx ts) stats3)"

definition computeAccountStats ::
  "(string \<Rightarrow> int option) \<Rightarrow> Transaction list \<Rightarrow> (string \<times> AccountStats) list" where
  "computeAccountStats getTime transactions = foldl (statsStep getTime) [] transactions"

subsection \<open>Suspicion score\<close>

text \<open>The score after the pattern terms and the temporal bonus.\<close>

definition patternScore :: "string list \<Rightarrow> nat \<Rightarrow> bool \<Rightarrow> real" where
  "patternScore pats cycleCount temporalFlag =
     (let score0 = (0 :: real);
          score1 = (if list_ex (prefix ''cycle_length_'') pats
                    then score0 + 35 + real_of_int (min (int cycleCount - 1) 3) * 10
                    else score0);
          score2 = (if ''fan_in'' \<in> set pats then score1 + 25 else score1);
          score3 = (if ''fan_out'' \<in> set pats then score2 + 25 else score2);
          score4 = (if ''shell_network'' \<in> set pats then score3 + 20 else score3)
      in if temporalFlag then score4 + 15 else score4)"

text \<open>The transaction pattern analysis: what the nested tests on the account's
  statistics add to the score.\<close>

definition flowBonus :: "string \<Rightarrow> (string \<times> AccountStats) list \<Rightarrow> real" where
  "flowBonus accountId accountStats =
     (case mapGet accountStats accountId of
        None \<Rightarrow> 0
      | Some stats \<Rightarrow>
          (let totalFlow = totalSent stats + totalReceived stats in
           if totalFlow > 0 then
             (let maxFlow = max (totalSent stats) (totalReceived stats) in
              if maxFlow > 0 then
                (let flowRatio = min (totalSent stats) (totalReceived stats) / maxFlow in
                 if flowRatio > 7 / 10 \<and> flowRatio < 1 then 10 else 0)
              else 0)
           else 0))"

definition calculateSuspicionScore ::
  "string \<Rightarrow> string list \<Rightarrow> (string \<times> AccountStats) list \<Rightarrow> nat \<Rightarrow> bool \<Rightarrow> bool \<Rightarrow> bool
     \<Rightarrow> real" where
  "calculateSuspicionScore accountId pats accountStats cycleCount isSmurfHub isShellNode
       temporalFlag =
     (let score = patternScore pats cycleCount temporalFlag + flowBonus accountId accountStats;
          capped = min score 100
      in round1 capped)"

subsection \<open>Legitimate business accounts\<close>

record AccountTxs =
  sent :: "Transaction list"
  received :: "Transaction list"
  uniqueSenders :: "string list"
  uniqueReceivers :: "string list"
  txTotalSent :: real
  txTotalReceived :: real

definition emptyTxs :: AccountTxs where
  "emptyTxs = \<lparr>sent = [], received = [], uniqueSenders = [], uniqueReceivers = [],
     txTotalSent = 0, txTotalReceived = 0\<rparr>"

definition gatherStep :: "(string \<times> AccountTxs) list \<Rightarrow> Transaction \<Rightarrow> (string \<times> AccountTxs) list" where
  "gatherStep accountTxs tx =
     (let m1 = mapInit (sender_id tx) emptyTxs accountTxs;
          m2 = mapModify (sender_id tx)
                 (\<lambda>s. s\<lparr>sent := sent s @ [tx],
                          uniqueReceivers := setAdd (receiver_id tx) (uniqueReceivers s),
                          txTotalSent := txTotalSent s + amount tx\<rparr>) m1;
          m3 = mapInit (receiver_id tx) emptyTxs m2
      in mapModify (receiver_id tx)
           (\<lambda>r. r\<lparr>received := received r @ [tx],
                    uniqueSenders := setAdd (sender_id tx) (uniqueSenders r),
                    txTotalReceived := txTotalReceived r + amount tx\<rparr>) m3)"

definition businessKeywords :: "string list" where
  "businessKeywords =
     [''COMPANY'', ''CORP'', ''INC'', ''LLC'', ''LTD'', ''ENTERPRISE'',
      ''PAYROLL'', ''SALARY'', ''WAGE'', ''HR_'', ''HUMAN_RESOURCE'',
      ''RENT'', ''LANDLORD'', ''PROPERTY'', ''REALTY'', ''HOUSING'',
      ''VENDOR'', ''SUPPLIER'', ''SUPPLY'', ''WHOLESALE'',
      ''GROCERY'', ''STORE'', ''SHOP'', ''MARKET'', ''RETAIL'',
      ''UTILITY'', ''ELECTRIC'', ''WATER'', ''GAS_CO'', ''POWER'',
      ''INSURANCE'', ''INSURE'',
      ''BANK'', ''CREDIT_UNION'', ''MORTGAGE'',
      ''GOVERNMENT'', ''GOV_'', ''TAX_'', ''IRS'',
      ''SCHOOL'', ''UNIVERSITY'', ''COLLEGE'',
      ''HOSPITAL'', ''CLINIC'', ''MEDICAL'', ''HEALTH'',
      ''TELECOM'', ''PHONE'', ''MOBILE'', ''INTERNET'',
      ''SUBSCRIPTION'', ''NETFLIX'', ''SPOTIFY'']"

definition hasBusinessName :: "string \<Rightarrow> bool" where
  "hasBusinessName accountId =
     (let nameUpper = toUpperCase accountId
      in list_ex (\<lambda>kw. strIncludes nameUpper kw) businessKeywords)"

text \<open>The test shared by the payroll and the rent-collector heuristics: the
  coefficient of variation of the amounts is below 0.3. It is only evaluated on five
  amounts or more.\<close>

definition consistentAmounts :: "real list \<Rightarrow> bool" where
  "consistentAmounts amounts =
     (let mean = foldl (\<lambda>a b. a + b) 0 amounts / real (length amounts) in
      if mean = 0 then False
      else (let variance = foldl (\<lambda>a b. a + (b - mean)\<^sup>2) 0 amounts / real (length amounts);
                cv = sqrt variance / mean
            in cv < 3 / 10))"

definition isLegitimate :: "string \<Rightarrow> AccountTxs \<Rightarrow> bool" where
  "isLegitimate accountId d =
     (let isPayrollLike = (length (uniqueReceivers d) \<ge> 5 \<and> length (sent d) \<ge> 5
                            \<and> consistentAmounts (map amount (sent d)));
          isRentCollector = (length (uniqueSenders d) \<ge> 5 \<and> length (received d) \<ge> 5
                            \<and> consistentAmounts (map amount (received d)));
          isMerchant = (length (uniqueSenders d) \<ge> 8 \<and> length (uniqueReceivers d) \<le> 3
                            \<and> txTotalReceived d > txTotalSent d * 5);
          isPurePayer = (length (uniqueReceivers d) \<ge> 5 \<and> length (uniqueSenders d) \<le> 1
                            \<and> txTotalSent d > txTotalReceived d * 5);
          flowRatio = (if txTotalSent d > 0 \<and> txTotalReceived d > 0
                       then min (txTotalSent d) (txTotalReceived d)
                              / max (txTotalSent d) (txTotalReceived d)
                       else 0);
          isOneDirectional = (flowRatio < 15 / 100)
      in if hasBusinessName accountId then True
         else if isPayrollLike \<and> isOneDirectional then True
         else if isRentCollector \<and> isOneDirectional then True
         else if isMerchant then True
         else if isPurePayer then True
         else False)"

definition detectLegitimateAccounts :: "Transaction list \<Rightarrow> string list" where
  "detectLegitimateAccounts transactions =
     (let accountTxs = foldl gatherStep [] transactions
      in map fst (filter (\<lambda>(accountId, d). isLegitimate accountId d) accountTxs))"

definition removeLegitimateTransactions :: "Transaction list \<Rightarrow> string list \<Rightarrow> Transaction list" where
  "removeLegitimateTransactions transactions legitimateAccounts =
     (if length legitimateAccounts = 0 then transactions
      else filter (\<lambda>tx. sender_id tx \<notin> set legitimateAccounts
                        \<and> receiver_id tx \<notin> set legitimateAccounts) transactions)"

subsection \<open>Adjacency index and account universe\<close>

type_synonym adjacency = "(string \<times> (string \<times> Transaction list) list) list"

definition adjStep :: "adjacency \<Rightarrow> Transaction \<Rightarrow> adjacency" where
  "adjStep adj tx =
     (let adj1 = mapInit (sender_id tx) [] adj
      in mapModify (sender_id tx)
           (\<lambda>senderMap. mapModify (receiver_id tx) (\<lambda>l. l @ [tx])
                           (mapInit (receiver_id tx) [] senderMap)) adj1)"

definition buildAdjacencyList :: "Transaction list \<Rightarrow> adjacency" where
  "buildAdjacencyList transactions = foldl adjStep [] transactions"

definition getAllAccounts :: "Transaction list \<Rightarrow> string list" where
  "getAllAccounts transactions =
     foldl (\<lambda>accounts tx. setAdd (receiver_id tx) (setAdd (sender_id tx) accounts)) [] transactions"

text \<open>The keys of \<open>adj.get(current)\<close> in insertion order; no neighbours when the
  account never sent.\<close>

definition neighbors :: "adjacency \<Rightarrow> string \<Rightarrow> string list" where
  "neighbors adj current = (case mapGet adj current of None \<Rightarrow> [] | Some m \<Rightarrow> map fst m)"

subsection \<open>Ring deduplication key\<close>

definition makeRingDeduplicationKey :: "string list \<Rightarrow> string \<Rightarrow> string" where
  "makeRingDeduplicationKey members patternType =
     (let sorted = sort members in patternType @ ''::'' @ join '','' sorted)"

subsection \<open>Pattern 1: cycles of length 3 to 5\<close>

text \<open>The inner \<open>dfs\<close> of \<open>detectCycles\<close>. \<open>path\<close> and \<open>visited\<close> are the values of
  the shared variables when the call starts; the call leaves them as it found them
  (\<open>pop\<close> and \<open>delete\<close> undo \<open>push\<close> and \<open>add\<close>), so the caller goes on with its own.
  The result is the list of paths the call pushes onto \<open>cycles\<close>, in order.\<close>

function dfsCycle ::
  "adjacency \<Rightarrow> string \<Rightarrow> string list \<Rightarrow> string list \<Rightarrow> string \<Rightarrow> nat \<Rightarrow> string list list" where
  "dfsCycle adj startNode path visited current depth =
     (if depth > 5 then []
      else
        (let path' = path @ [current];
             visited' = setAdd current visited
         in concat (map (\<lambda>neighbor.
              if neighbor = startNode \<and> depth \<ge> 3 then [path']
              else if neighbor \<notin> set visited' \<and> depth < 5
                   then dfsCycle adj startNode path' visited' neighbor (depth + 1)
                   else [])
            (neighbors adj current))))"
  by pat_completeness auto
termination
  by (relation "measure (\<lambda>(adj, startNode, path, visited, current, depth). 5 - depth)") auto

text \<open>The rotation that puts the smallest member first. \<open>reduce\<close> without an initial
  value raises a TypeError on an empty array; the search never records an empty path
  (lemma \<open>allCycles_sound\<close>), and the model returns the empty list there.\<close>

definition minMember :: "string list \<Rightarrow> string" where
  "minMember cycle = foldl (\<lambda>a b. if a < b then a else b) (hd cycle) (tl cycle)"

definition indexOf :: "'a list \<Rightarrow> 'a \<Rightarrow> nat" where
  "indexOf xs x = length (takeWhile (\<lambda>y. y \<noteq> x) xs)"

definition normalizeCycle :: "string list \<Rightarrow> string list" where
  "normalizeCycle cycle =
     (if cycle = [] then []
      else (let minIdx = indexOf cycle (minMember cycle)
            in drop minIdx cycle @ take minIdx cycle))"

text \<open>The deduplication loop: the state is the pair of \<open>seen\<close> and \<open>uniqueCycles\<close>.\<close>

definition dedupStep :: "string list \<times> string list list \<Rightarrow> string list \<Rightarrow> string list \<times> string list list" where
  "dedupStep st cycle =
     (let normalized = normalizeCycle cycle;
          key = join ''|'' normalized
      in if key \<in> set (fst st) then st
         else (setAdd key (fst st), snd st @ [normalized]))"

definition allCycles :: "adjacency \<Rightarrow> string list \<Rightarrow> string list list" where
  "allCycles adj allNodes = concat (map (\<lambda>startNode. dfsCycle adj startNode [] [] startNode 1) allNodes)"

definition detectCycles :: "adjacency \<Rightarrow> string list \<Rightarrow> string list list" where
  "detectCycles adj allAccounts =
     (let cycles = allCycles adj allAccounts
      in snd (foldl dedupStep ([], []) cycles))"

subsection \<open>Pattern 2: smurfing (fan-in and fan-out)\<close>

definition WINDOW_MS :: int where
  "WINDOW_MS = 72 * 60 * 60 * 1000"

definition MIN_CONNECTIONS :: nat where
  "MIN_CONNECTIONS = 10"

record FanIn =
  fanInSenders :: "string list"
  fanInTemporal :: bool

record FanOut =
  fanOutReceivers :: "string list"
  fanOutTemporal :: bool

text \<open>\<open>byReceiver\<close> and \<open>bySender\<close>: the transactions grouped under a key, groups in
  the order their key is first met.\<close>

definition groupPush :: "(Transaction \<Rightarrow> string) \<Rightarrow> (string \<times> Transaction list) list \<Rightarrow> Transaction
     \<Rightarrow> (string \<times> Transaction list) list" where
  "groupPush key m tx = mapModify (key tx) (\<lambda>l. l @ [tx]) (mapInit (key tx) [] m)"

definition groupBy :: "(Transaction \<Rightarrow> string) \<Rightarrow> Transaction list \<Rightarrow> (string \<times> Transaction list) list" where
  "groupBy key transactions = foldl (groupPush key) [] transactions"

text \<open>\<open>sort((a, b) => a - b)\<close> on parsed timestamps. With \<open>NaN\<close> among them the
  comparator is inconsistent and the order the platform produces is its own choice; the
  result is a permutation of the input in any case. The model sorts the finite values
  and puts the \<open>NaN\<close>s last. The scan below only asks whether some position passes the
  test, so the choice does not reach the result.\<close>

definition sortNumbers :: "int option list \<Rightarrow> int option list" where
  "sortNumbers ts = map Some (sort (concat (map (\<lambda>t. case t of None \<Rightarrow> [] | Some v \<Rightarrow> [v]) ts)))
                    @ filter (\<lambda>t. t = None) ts"

text \<open>\<open>ts >= timestamps[i] && ts <= windowEnd\<close>: false as soon as one side is \<open>NaN\<close>.\<close>

definition inWindow :: "int option \<Rightarrow> int option \<Rightarrow> bool" where
  "inWindow ts ti =
     (case ti of None \<Rightarrow> False
      | Some b \<Rightarrow> (let windowEnd = b + WINDOW_MS
                   in case ts of None \<Rightarrow> False | Some a \<Rightarrow> a \<ge> b \<and> a \<le> windowEnd))"

text \<open>The loop over \<open>timestamps\<close> with its \<open>break\<close>: the flag is set when some window
  holds enough distinct counterparties.\<close>

definition temporalCluster ::
  "(string \<Rightarrow> int option) \<Rightarrow> (Transaction \<Rightarrow> string) \<Rightarrow> Transaction list \<Rightarrow> bool" where
  "temporalCluster getTime party txs =
     (let timestamps = sortNumbers (map (\<lambda>t. getTime (timestamp t)) txs)
      in list_ex (\<lambda>ti.
           length (newSet (map party (filter (\<lambda>t. inWindow (getTime (timestamp t)) ti) txs)))
             \<ge> MIN_CONNECTIONS) timestamps)"

definition fanInAccountsOf :: "(string \<Rightarrow> int option) \<Rightarrow> Transaction list \<Rightarrow> (string \<times> FanIn) list" where
  "fanInAccountsOf getTime transactions =
     concat (map (\<lambda>(receiverId, txs).
        (let uniqueSenders = newSet (map sender_id txs)
         in if length uniqueSenders \<ge> MIN_CONNECTIONS
            then [(receiverId, \<lparr>fanInSenders = uniqueSenders,
                                 fanInTemporal = temporalCluster getTime sender_id txs\<rparr>)]
            else []))
       (groupBy receiver_id transactions))"

definition fanOutAccountsOf :: "(string \<Rightarrow> int option) \<Rightarrow> Transaction list \<Rightarrow> (string \<times> FanOut) list" where
  "fanOutAccountsOf getTime transactions =
     concat (map (\<lambda>(senderId, txs).
        (let uniqueReceivers = newSet (map receiver_id txs)
         in if length uniqueReceivers \<ge> MIN_CONNECTIONS
            then [(senderId, \<lparr>fanOutReceivers = uniqueReceivers,
                               fanOutTemporal = temporalCluster getTime receiver_id txs\<rparr>)]
            else []))
       (groupBy sender_id transactions))"

definition detectSmurfing ::
  "(string \<Rightarrow> int option) \<Rightarrow> Transaction list \<Rightarrow> (string \<times> FanIn) list \<times> (string \<times> FanOut) list" where
  "detectSmurfing getTime transactions =
     (fanInAccountsOf getTime transactions, fanOutAccountsOf getTime transactions)"

subsection \<open>Pattern 3: layered shell networks\<close>

definition totalTxOf :: "(string \<times> AccountStats) list \<Rightarrow> string \<Rightarrow> nat" where
  "totalTxOf accountStats a =
     (case mapGet accountStats a of None \<Rightarrow> 0 | Some stats \<Rightarrow> totalTransactions stats)"

text \<open>Every account that is the target of an edge: the accounts the search can step to.\<close>

definition targets :: "adjacency \<Rightarrow> string set" where
  "targets adj = set (concat (map (\<lambda>(s, m). map fst m) adj))"

text \<open>The chains recorded when the next hops of a freshly appended shell node are
  inspected: one per final destination.\<close>

definition terminalChains ::
  "adjacency \<Rightarrow> (string \<times> AccountStats) list \<Rightarrow> string list \<Rightarrow> string list \<Rightarrow> string list
     \<Rightarrow> string \<Rightarrow> string list list" where
  "terminalChains adj accountStats cycleNodes path visited neighbor =
     concat (map (\<lambda>nn.
        if nn \<notin> set visited \<and> nn \<notin> set cycleNodes then
          (let nnTx = totalTxOf accountStats nn
           in if nnTx \<ge> 2 \<and> nnTx \<le> 3 then []
              else if length path \<ge> 2 then [path @ [nn]] else [])
        else [])
       (neighbors adj neighbor))"

text \<open>The inner \<open>dfs\<close> of \<open>detectShellNetworks\<close>, with \<open>path\<close> and \<open>visited\<close> passed
  as for the cycle search. The result is the list of chains the call records.\<close>

function dfsShell ::
  "adjacency \<Rightarrow> (string \<times> AccountStats) list \<Rightarrow> string list \<Rightarrow> string list \<Rightarrow> string list
     \<Rightarrow> string \<Rightarrow> string list list" where
  "dfsShell adj accountStats cycleNodes path visited current =
     concat (map (\<lambda>neighbor.
        if neighbor \<in> set visited then []
        else if neighbor \<in> set cycleNodes then []
        else
          (let totalTx = totalTxOf accountStats neighbor
           in if totalTx \<ge> 2 \<and> totalTx \<le> 3 then
                (let path' = path @ [neighbor];
                     visited' = setAdd neighbor visited
                 in terminalChains adj accountStats cycleNodes path' visited' neighbor
                    @ (if length path' \<ge> 3 then [path'] else [])
                    @ dfsShell adj accountStats cycleNodes path' visited' neighbor)
              else []))
       (neighbors adj current))"
  by pat_completeness auto

termination
  apply (relation "measure (\<lambda>(adj, accountStats, cycleNodes, path, visited, current).
                     card (targets adj - set visited))")
   apply simp
  subgoal premises p for adj accountStats cycleNodes path visited current x xa xaa xab
  proof -
    obtain m where m: "map_of adj current = Some m" "x \<in> set (map fst m)"
      using p(1) by (cases "map_of adj current") (auto simp: neighbors_def mapGet_def)
    then have "(current, m) \<in> set adj"
      by (simp add: map_of_SomeD)
    with m(2) have xt: "x \<in> targets adj"
      unfolding targets_def by force
    have fin: "finite (targets adj - set visited)"
      unfolding targets_def by (rule finite_Diff) (rule finite_set)
    have "targets adj - set xab \<subset> targets adj - set visited"
      using xt p(2) p(7) by (auto simp: setAdd_def)
    from psubset_card_mono [OF fin this] show ?thesis
      by simp
  qed
  done

definition shellChainsFrom ::
  "adjacency \<Rightarrow> (string \<times> AccountStats) list \<Rightarrow> string list \<Rightarrow> string \<Rightarrow> string list list" where
  "shellChainsFrom adj accountStats cycleNodes startNode =
     (if startNode \<in> set cycleNodes then []
      else dfsShell adj accountStats cycleNodes [startNode] (setAdd startNode []) startNode)"

definition allShellChains ::
  "adjacency \<Rightarrow> (string \<times> AccountStats) list \<Rightarrow> string list \<Rightarrow> string list list" where
  "allShellChains adj accountStats cycleNodes =
     concat (map (shellChainsFrom adj accountStats cycleNodes) (map fst adj))"

text \<open>The subset elimination: a chain is kept unless all its nodes are in a chain
  kept before it.\<close>

definition subsetStep :: "string list list \<Rightarrow> string list \<Rightarrow> string list list" where
  "subsetStep uniqueChains chain =
     (if list_ex (\<lambda>existing. list_all (\<lambda>node. node \<in> set existing) chain) uniqueChains
      then uniqueChains else uniqueChains @ [chain])"

text \<open>\<open>chains.sort((a, b) => b.length - a.length)\<close>: a stable sort, longest first.\<close>

definition detectShellNetworks ::
  "adjacency \<Rightarrow> (string \<times> AccountStats) list \<Rightarrow> string list \<Rightarrow> string list list" where
  "detectShellNetworks adj accountStats cycleNodes =
     (let chains = allShellChains adj accountStats cycleNodes;
          sortedChains = sort_key (\<lambda>c. - int (length c)) chains
      in foldl subsetStep [] sortedChains)"

subsection \<open>Ring assembly\<close>

text \<open>The variables of \<open>analyzeTransactions\<close> that its helpers and loops mutate.\<close>

record RingState =
  accountPatterns :: "(string \<times> string list) list"
  accountRings :: "(string \<times> string list) list"
  fraudRings :: "FraudRing list"
  ringDeduplicationSet :: "string list"
  ringCounter :: nat
  accountCycleCounts :: "(string \<times> nat) list"
  cycleNodes :: "string list"

definition initialState :: RingState where
  "initialState = \<lparr>accountPatterns = [], accountRings = [], fraudRings = [],
     ringDeduplicationSet = [], ringCounter = 1, accountCycleCounts = [], cycleNodes = []\<rparr>"

definition addPattern :: "string \<Rightarrow> string \<Rightarrow> RingState \<Rightarrow> RingState" where
  "addPattern accountId pattern st =
     st\<lparr>accountPatterns := mapModify accountId (setAdd pattern)
                               (mapInit accountId [] (accountPatterns st))\<rparr>"

definition addRing :: "string \<Rightarrow> string \<Rightarrow> RingState \<Rightarrow> RingState" where
  "addRing accountId ringId st =
     st\<lparr>accountRings := mapModify accountId (setAdd ringId)
                            (mapInit accountId [] (accountRings st))\<rparr>"

definition ringIdOf :: "nat \<Rightarrow> string" where
  "ringIdOf n = ''RING_'' @ padStart 3 (CHR ''0'') (stringOfNat n)"

definition nextRingId :: "RingState \<Rightarrow> string \<times> RingState" where
  "nextRingId st = (ringIdOf (ringCounter st), st\<lparr>ringCounter := ringCounter st + 1\<rparr>)"

definition cycleCountOf :: "(string \<times> nat) list \<Rightarrow> string \<Rightarrow> nat" where
  "cycleCountOf counts a = (case mapGet counts a of None \<Rightarrow> 0 | Some c \<Rightarrow> c)"

definition cycleMember :: "string \<Rightarrow> nat \<Rightarrow> RingState \<Rightarrow> string \<Rightarrow> RingState" where
  "cycleMember ringId len st account =
     (let st1 = addPattern account (''cycle_length_'' @ stringOfNat len) st;
          st2 = addRing account ringId st1;
          st3 = st2\<lparr>accountCycleCounts :=
                      mapSet account (cycleCountOf (accountCycleCounts st2) account + 1)
                        (accountCycleCounts st2)\<rparr>
      in st3\<lparr>cycleNodes := setAdd account (cycleNodes st3)\<rparr>)"

definition cycleStep :: "RingState \<Rightarrow> string list \<Rightarrow> RingState" where
  "cycleStep st cycle =
     (let dedupKey = makeRingDeduplicationKey cycle ''cycle''
      in if dedupKey \<in> set (ringDeduplicationSet st) then st
         else
           (let st1 = st\<lparr>ringDeduplicationSet := setAdd dedupKey (ringDeduplicationSet st)\<rparr>;
                (ringId, st2) = nextRingId st1;
                st3 = foldl (cycleMember ringId (length cycle)) st2 cycle;
                riskScore = min (70 + real (length cycle) * 5) 100
            in st3\<lparr>fraudRings := fraudRings st3 @
                 [\<lparr>ring_id = ringId, member_accounts = cycle, pattern_type = ''cycle'',
                   risk_score = round1 riskScore\<rparr>]\<rparr>))"

definition tagMember :: "string \<Rightarrow> string \<Rightarrow> RingState \<Rightarrow> string \<Rightarrow> RingState" where
  "tagMember pattern ringId st account = addRing account ringId (addPattern account pattern st)"

definition fanInStep :: "RingState \<Rightarrow> string \<times> FanIn \<Rightarrow> RingState" where
  "fanInStep st entry =
     (let accountId = fst entry; data = snd entry;
          members = accountId # fanInSenders data;
          dedupKey = makeRingDeduplicationKey members ''fan_in''
      in if dedupKey \<in> set (ringDeduplicationSet st) then st
         else
           (let st1 = st\<lparr>ringDeduplicationSet := setAdd dedupKey (ringDeduplicationSet st)\<rparr>;
                (ringId, st2) = nextRingId st1;
                st3 = tagMember ''fan_in'' ringId st2 accountId;
                st4 = foldl (tagMember ''fan_in'' ringId) st3 (fanInSenders data);
                riskScore = min (60 + (if fanInTemporal data then 25 else 10)
                                   + real (length (fanInSenders data)) * (1 / 2)) 100
            in st4\<lparr>fraudRings := fraudRings st4 @
                 [\<lparr>ring_id = ringId, member_accounts = members, pattern_type = ''fan_in'',
                   risk_score = round1 riskScore\<rparr>]\<rparr>))"

definition fanOutStep :: "RingState \<Rightarrow> string \<times> FanOut \<Rightarrow> RingState" where
  "fanOutStep st entry =
     (let accountId = fst entry; data = snd entry;
          members = accountId # fanOutReceivers data;
          dedupKey = makeRingDeduplicationKey members ''fan_out''
      in if dedupKey \<in> set (ringDeduplicationSet st) then st
         else
           (let st1 = st\<lparr>ringDeduplicationSet := setAdd dedupKey (ringDeduplicationSet st)\<rparr>;
                (ringId, st2) = nextRingId st1;
                st3 = tagMember ''fan_out'' ringId st2 accountId;
                st4 = foldl (tagMember ''fan_out'' ringId) st3 (fanOutReceivers data);
                riskScore = min (60 + (if fanOutTemporal data then 25 else 10)
                                   + real (length (fanOutReceivers data)) * (1 / 2)) 100
            in st4\<lparr>fraudRings := fraudRings st4 @
                 [\<lparr>ring_id = ringId, member_accounts = members, pattern_type = ''fan_out'',
                   risk_score = round1 riskScore\<rparr>]\<rparr>))"

definition shellStep :: "RingState \<Rightarrow> string list \<Rightarrow> RingState" where
  "shellStep st chain =
     (let dedupKey = makeRingDeduplicationKey chain ''shell_network''
      in if dedupKey \<in> set (ringDeduplicationSet st) then st
         else
           (let st1 = st\<lparr>ringDeduplicationSet := setAdd dedupKey (ringDeduplicationSet st)\<rparr>;
                (ringId, st2) = nextRingId st1;
                st3 = foldl (tagMember ''shell_network'' ringId) st2 chain;
                riskScore = min (50 + real (length chain) * 8) 100
            in st3\<lparr>fraudRings := fraudRings st3 @
                 [\<lparr>ring_id = ringId, member_accounts = chain, pattern_type = ''shell_network'',
                   risk_score = round1 riskScore\<rparr>]\<rparr>))"

text \<open>The four assembly loops of \<open>analyzeTransactions\<close> in their order: cycles,
  fan-in, fan-out, shell networks. Smurfing detection is called on \<open>transactions\<close>, the
  other detectors work on the filtered transactions.\<close>

definition assembleRings ::
  "(string \<Rightarrow> int option) \<Rightarrow> Transaction list \<Rightarrow> Transaction list \<Rightarrow> RingState" where
  "assembleRings getTime transactions filteredTransactions =
     (let allAccounts = getAllAccounts filteredTransactions;
          adj = buildAdjacencyList filteredTransactions;
          accountStats = computeAccountStats getTime filteredTransactions;
          cycles = detectCycles adj allAccounts;
          st1 = foldl cycleStep initialState cycles;
          (fanInAccounts, fanOutAccounts) = detectSmurfing getTime transactions;
          st2 = foldl fanInStep st1 fanInAccounts;
          st3 = foldl fanOutStep st2 fanOutAccounts;
          shellChains = detectShellNetworks adj accountStats (cycleNodes st3)
      in foldl shellStep st3 shellChains)"

subsection \<open>Projection\<close>

definition fanInTemporalOf :: "(string \<times> FanIn) list \<Rightarrow> string \<Rightarrow> bool" where
  "fanInTemporalOf fanInAccounts a =
     (case mapGet fanInAccounts a of None \<Rightarrow> False | Some d \<Rightarrow> fanInTemporal d)"

definition fanOutTemporalOf :: "(string \<times> FanOut) list \<Rightarrow> string \<Rightarrow> bool" where
  "fanOutTemporalOf fanOutAccounts a =
     (case mapGet fanOutAccounts a of None \<Rightarrow> False | Some d \<Rightarrow> fanOutTemporal d)"

text \<open>One iteration of the loop over \<open>accountPatterns\<close>: nothing for an account
  without rings, one record otherwise.\<close>

definition suspiciousEntry ::
  "(string \<times> FanIn) list \<Rightarrow> (string \<times> FanOut) list \<Rightarrow> (string \<times> AccountStats) list \<Rightarrow> RingState
     \<Rightarrow> string \<times> string list \<Rightarrow> SuspiciousAccount list" where
  "suspiciousEntry fanInAccounts fanOutAccounts accountStats st entry =
     (let accountId = fst entry; pats = snd entry
      in case mapGet (accountRings st) accountId of
           None \<Rightarrow> []
         | Some rings \<Rightarrow>
             if length rings = 0 then []
             else
               (let isFanIn = mapHas accountId fanInAccounts;
                    isFanOut = mapHas accountId fanOutAccounts;
                    temporalFlag = (fanInTemporalOf fanInAccounts accountId
                                    \<or> fanOutTemporalOf fanOutAccounts accountId);
                    score = calculateSuspicionScore accountId pats accountStats
                              (cycleCountOf (accountCycleCounts st) accountId)
                              (isFanIn \<or> isFanOut) (''shell_network'' \<in> set pats) temporalFlag;
                    primaryRing = hd rings
                in [\<lparr>account_id = accountId, suspicion_score = score,
                      detected_patterns = pats, primary_ring_id = primaryRing\<rparr>]))"

text \<open>The suspicious accounts, sorted by score, highest first (a stable sort).\<close>

definition buildSuspiciousAccounts ::
  "(string \<times> FanIn) list \<Rightarrow> (string \<times> FanOut) list \<Rightarrow> (string \<times> AccountStats) list \<Rightarrow> RingState
     \<Rightarrow> SuspiciousAccount list" where
  "buildSuspiciousAccounts fanInAccounts fanOutAccounts accountStats st =
     sort_key (\<lambda>a. - suspicion_score a)
       (concat (map (suspiciousEntry fanInAccounts fanOutAccounts accountStats st)
                  (accountPatterns st)))"

definition buildNode ::
  "string list \<Rightarrow> (string \<times> AccountStats) list \<Rightarrow> RingState \<Rightarrow> SuspiciousAccount list
     \<Rightarrow> string \<Rightarrow> GraphNode" where
  "buildNode legitimateAccounts allOriginalStats st suspiciousAccounts accountId =
     (let suspiciousSet = newSet (map account_id suspiciousAccounts);
          stats = mapGet allOriginalStats accountId;
          rings = mapGet (accountRings st) accountId;
          pats = mapGet (accountPatterns st) accountId;
          sa = find (\<lambda>a. account_id a = accountId) suspiciousAccounts;
          isLegit = (accountId \<in> set legitimateAccounts)
      in \<lparr>node_id = accountId,
          suspicious = (accountId \<in> set suspiciousSet),
          ring_ids = (case rings of None \<Rightarrow> [] | Some r \<Rightarrow> r),
          patterns = (if isLegit then [''legitimate_business'']
                      else (case pats of None \<Rightarrow> [] | Some p \<Rightarrow> p)),
          total_sent = (case stats of None \<Rightarrow> 0 | Some s \<Rightarrow> totalSent s),
          total_received = (case stats of None \<Rightarrow> 0 | Some s \<Rightarrow> totalReceived s),
          transaction_count = (case stats of None \<Rightarrow> 0 | Some s \<Rightarrow> totalTransactions s),
          node_suspicion_score = (case sa of None \<Rightarrow> 0 | Some a \<Rightarrow> suspicion_score a)\<rparr>)"

definition edgeOf :: "Transaction \<Rightarrow> GraphEdge" where
  "edgeOf tx = \<lparr>source = sender_id tx, target = receiver_id tx, edge_amount = amount tx,
     edge_timestamp = timestamp tx, edge_transaction_id = transaction_id tx\<rparr>"

text \<open>The node record of the early return, taken when the filter leaves no
  transaction.\<close>

definition emptyNode :: "string list \<Rightarrow> string \<Rightarrow> GraphNode" where
  "emptyNode legitimateAccounts accountId =
     \<lparr>node_id = accountId, suspicious = False, ring_ids = [],
      patterns = (if accountId \<in> set legitimateAccounts then [''legitimate_business''] else []),
      total_sent = 0, total_received = 0, transaction_count = 0, node_suspicion_score = 0\<rparr>"

subsection \<open>Main analysis function\<close>

definition analyzeTransactions :: "(string \<Rightarrow> int option) \<Rightarrow> Transaction list \<Rightarrow> AnalysisResult" where
  "analyzeTransactions getTime transactions =
     (let allAccountsBeforeFilter = getAllAccounts transactions;
          legitimateAccounts = detectLegitimateAccounts transactions;
          filteredTransactions = removeLegitimateTransactions transactions legitimateAccounts
      in if length filteredTransactions = 0 then
           \<lparr>suspicious_accounts = [], fraud_rings = [],
            summary = \<lparr>total_accounts_analyzed = length allAccountsBeforeFilter,
                        suspicious_accounts_flagged = 0, fraud_rings_detected = 0,
                        legitimate_accounts_filtered = length legitimateAccounts\<rparr>,
            nodes = map (emptyNode legitimateAccounts) allAccountsBeforeFilter,
            edges = map edgeOf transactions\<rparr>
         else
           (let accountStats = computeAccountStats getTime filteredTransactions;
                st = assembleRings getTime transactions filteredTransactions;
                (fanInAccounts, fanOutAccounts) = detectSmurfing getTime transactions;
                suspiciousAccounts =
                  buildSuspiciousAccounts fanInAccounts fanOutAccounts accountStats st;
                allOriginalStats = computeAccountStats getTime transactions;
                nodes = map (buildNode legitimateAccounts allOriginalStats st suspiciousAccounts)
                          allAccountsBeforeFilter;
                edges = map edgeOf transactions
            in \<lparr>suspicious_accounts = suspiciousAccounts, fraud_rings = fraudRings st,
                summary = \<lparr>total_accounts_analyzed = length allAccountsBeforeFilter,
                            suspicious_accounts_flagged = length suspiciousAccounts,
                            fraud_rings_detected = length (fraudRings st),
                            legitimate_accounts_filtered = length legitimateAccounts\<rparr>,
                nodes = nodes, edges = edges\<rparr>))"

section \<open>Specification-side definitions and concrete batches\<close>

text \<open>The pass-through condition in the words of the specification: both totals are
  positive and the flow ratio lies strictly between 0.7 and 1.0.\<close>

definition passThroughSpec :: "real \<Rightarrow> real \<Rightarrow> bool" where
  "passThroughSpec s r = (s > 0 \<and> r > 0 \<and> 7 / 10 < min s r / max s r \<and> min s r / max s r < 1)"

definition mkTx :: "string \<Rightarrow> string \<Rightarrow> string \<Rightarrow> real \<Rightarrow> string \<Rightarrow> Transaction" where
  "mkTx i s r a t = \<lparr>transaction_id = i, sender_id = s, receiver_id = r, amount = a, timestamp = t\<rparr>"

text \<open>Scenario A of the specification: a pure 3-cycle with equal amounts.\<close>

definition pureCycle :: "Transaction list" where
  "pureCycle = [mkTx ''T1'' ''A'' ''B'' 100 ''2024-01-01T00:00:00Z'',
                mkTx ''T2'' ''B'' ''C'' 100 ''2024-01-01T01:00:00Z'',
                mkTx ''T3'' ''C'' ''A'' 100 ''2024-01-01T02:00:00Z'']"

text \<open>Scenario C of the specification: ten employees paid by a payroll account.\<close>

definition payrollBatch :: "Transaction list" where
  "payrollBatch = map (\<lambda>(i, e). mkTx i ''ACME_CORP_PAYROLL'' e 2000 ''2024-01-01T00:00:00Z'')
     [(''T01'', ''E1''), (''T02'', ''E2''), (''T03'', ''E3''), (''T04'', ''E4''), (''T05'', ''E5''),
      (''T06'', ''E6''), (''T07'', ''E7''), (''T08'', ''E8''), (''T09'', ''E9''), (''T10'', ''E10'')]"

text \<open>Ten senders paying into an account with a business name, and one unrelated
  transfer.\<close>

definition bankHub :: "Transaction list" where
  "bankHub = map (\<lambda>(i, s). mkTx i s ''BANK'' 50 ''2024-01-01T00:00:00Z'')
     [(''T01'', ''S01''), (''T02'', ''S02''), (''T03'', ''S03''), (''T04'', ''S04''), (''T05'', ''S05''),
      (''T06'', ''S06''), (''T07'', ''S07''), (''T08'', ''S08''), (''T09'', ''S09''), (''T10'', ''S10'')]
     @ [mkTx ''T11'' ''X'' ''Y'' 5 ''2024-01-01T00:00:00Z'']"

text \<open>Constants used in the proofs: the statistics of an account with the defaults for
  an absent one, the shape shared by the four assembly loops, the three risk formulas,
  the tagging of ring members, and the invariant of ring assembly.\<close>

definition statOf :: "(string \<times> AccountStats) list \<Rightarrow> string \<Rightarrow> AccountStats" where
  "statOf stats a = (case mapGet stats a of None \<Rightarrow> emptyStats | Some s \<Rightarrow> s)"

definition emitRing ::
  "string \<Rightarrow> string list \<Rightarrow> real \<Rightarrow> (string \<Rightarrow> RingState \<Rightarrow> string \<Rightarrow> RingState) \<Rightarrow> RingState
     \<Rightarrow> RingState" where
  "emitRing ptype members risk member st =
     (let dedupKey = makeRingDeduplicationKey members ptype
      in if dedupKey \<in> set (ringDeduplicationSet st) then st
         else
           (let st3 = foldl (member (ringIdOf (ringCounter st)))
                        (st\<lparr>ringDeduplicationSet := setAdd dedupKey (ringDeduplicationSet st),
                            ringCounter := ringCounter st + 1\<rparr>) members
            in st3\<lparr>fraudRings := fraudRings st3 @
                 [\<lparr>ring_id = ringIdOf (ringCounter st), member_accounts = members,
                   pattern_type = ptype, risk_score = round1 risk\<rparr>]\<rparr>))"

definition cycleRisk :: "nat \<Rightarrow> real" where
  "cycleRisk n = min (70 + real n * 5) 100"

definition fanRisk :: "bool \<Rightarrow> nat \<Rightarrow> real" where
  "fanRisk temporal n = min (60 + (if temporal then 25 else 10) + real n * (1 / 2)) 100"

definition shellRisk :: "nat \<Rightarrow> real" where
  "shellRisk n = min (50 + real n * 8) 100"

definition touch :: "string \<Rightarrow> string \<Rightarrow> (string \<times> string list) list \<Rightarrow> (string \<times> string list) list" where
  "touch k x m = mapModify k (setAdd x) (mapInit k [] m)"

definition touchAll :: "string \<Rightarrow> (string \<times> string list) list \<Rightarrow> string list \<Rightarrow> (string \<times> string list) list" where
  "touchAll x m ks = foldl (\<lambda>m k. touch k x m) m ks"

definition ringKey :: "FraudRing \<Rightarrow> string" where
  "ringKey r = makeRingDeduplicationKey (member_accounts r) (pattern_type r)"

definition membersOf :: "FraudRing list \<Rightarrow> string set" where
  "membersOf rings = (\<Union>r \<in> set rings. set (member_accounts r))"

definition ringInv :: "RingState \<Rightarrow> bool" where
  "ringInv st =
     (ringCounter st = Suc (length (fraudRings st)) \<and>
      map ring_id (fraudRings st) = map (\<lambda>i. ringIdOf (Suc i)) [0 ..< length (fraudRings st)] \<and>
      map ringKey (fraudRings st) = ringDeduplicationSet st \<and>
      distinct (ringDeduplicationSet st) \<and>
      distinct (map fst (accountPatterns st)) \<and>
      distinct (map fst (accountRings st)) \<and>
      list_all (\<lambda>e. snd e \<noteq> []) (accountPatterns st) \<and>
      list_all (\<lambda>e. snd e \<noteq> []) (accountRings st) \<and>
      fst ` set (accountPatterns st) = membersOf (fraudRings st) \<and>
      fst ` set (accountRings st) = membersOf (fraudRings st) \<and>
      set (cycleNodes st) = membersOf (filter (\<lambda>r. pattern_type r = ''cycle'') (fraudRings st)))"

definition digitValue :: "char \<Rightarrow> nat" where
  "digitValue c = of_char c - 48"

definition natOfDigits :: "string \<Rightarrow> nat" where
  "natOfDigits s = foldl (\<lambda>n c. 10 * n + digitValue c) 0 s"

definition filteredOf :: "Transaction list \<Rightarrow> Transaction list" where
  "filteredOf txs = removeLegitimateTransactions txs (detectLegitimateAccounts txs)"

definition candidateEffect :: "RingState \<Rightarrow> RingState \<Rightarrow> string \<Rightarrow> bool" where
  "candidateEffect st' st dedupKey =
     (if dedupKey \<in> set (ringDeduplicationSet st) then st' = st
      else ringCounter st' = Suc (ringCounter st)
           \<and> map ring_id (fraudRings st') = map ring_id (fraudRings st) @ [ringIdOf (ringCounter st)])"

text \<open>A ring with given members, pattern type and (unrounded) risk.\<close>

definition ringShape :: "string \<Rightarrow> string list \<Rightarrow> real \<Rightarrow> FraudRing \<Rightarrow> bool" where
  "ringShape ptype members risk r =
     (member_accounts r = members \<and> pattern_type r = ptype \<and> risk_score r = round1 risk)"

text \<open>The risk formulas in the words of the specification, before capping and rounding.
  The hub of a fan ring is its first member.\<close>

definition riskFormula :: "(string \<Rightarrow> int option) \<Rightarrow> Transaction list \<Rightarrow> FraudRing \<Rightarrow> real" where
  "riskFormula getTime transactions r =
     (let n = length (member_accounts r); hub = hd (member_accounts r)
      in if pattern_type r = ''cycle'' then 70 + 5 * real n
         else if pattern_type r = ''fan_in'' then
           (let txs = filter (\<lambda>t. receiver_id t = hub) transactions
            in 60 + (if temporalCluster getTime sender_id txs then 25 else 10)
                 + (1 / 2) * real (length (remdups (map sender_id txs))))
         else if pattern_type r = ''fan_out'' then
           (let txs = filter (\<lambda>t. sender_id t = hub) transactions
            in 60 + (if temporalCluster getTime receiver_id txs then 25 else 10)
                 + (1 / 2) * real (length (remdups (map receiver_id txs))))
         else 50 + 8 * real n)"

text \<open>The transactions stored in the adjacency index under a sender and a receiver.\<close>

definition edgeTxs :: "adjacency \<Rightarrow> string \<Rightarrow> string \<Rightarrow> Transaction list" where
  "edgeTxs adj s r =
     (case mapGet adj s of None \<Rightarrow> []
      | Some m \<Rightarrow> (case mapGet m r of None \<Rightarrow> [] | Some l \<Rightarrow> l))"

text \<open>The statistics of an account without the parsed timestamps.\<close>

definition statsCore ::
  "AccountStats \<Rightarrow> real \<times> real \<times> nat \<times> nat \<times> string list \<times> string list \<times> nat" where
  "statsCore s = (totalSent s, totalReceived s, sendCount s, receiveCount s, senders s, receivers s,
     totalTransactions s)"

text \<open>The hubs of smurfing detection with their counterparties, as a function of the
  transactions' endpoints alone: the groups of at least ten distinct counterparties.\<close>

definition hubsOf ::
  "(Transaction \<Rightarrow> string) \<Rightarrow> (Transaction \<Rightarrow> string) \<Rightarrow> Transaction list
     \<Rightarrow> (string \<times> string list) list" where
  "hubsOf hub party txs =
     concat (map (\<lambda>(k, l). if MIN_CONNECTIONS \<le> length (newSet (map party l))
                             then [(k, newSet (map party l))] else [])
               (groupBy hub txs))"

text \<open>Ten accounts, each paying 100 to \<open>A\<close> and 100 to \<open>B\<close>; \<open>A\<close> and \<open>B\<close> are
  among the ten, so the batch has two self-transfers.\<close>

definition selfTransfers :: "Transaction list" where
  "selfTransfers = concat (map (\<lambda>x. [mkTx (''T_'' @ x @ ''_A'') x ''A'' 100 ''2024-01-01T00:00:00Z'',
                                        mkTx (''T_'' @ x @ ''_B'') x ''B'' 100 ''2024-01-01T00:00:00Z''])
     [''A'', ''B'', ''C1'', ''C2'', ''C3'', ''C4'', ''C5'', ''C6'', ''C7'', ''C8''])"

text \<open>An edge of the adjacency index, and a simple directed cycle of length 3 to 5: its
  members are distinct, consecutive members are joined by an edge, and so are the last
  and the first.\<close>

definition edge :: "adjacency \<Rightarrow> string \<Rightarrow> string \<Rightarrow> bool" where
  "edge adj x y = (y \<in> set (neighbors adj x))"

definition simpleCycle :: "adjacency \<Rightarrow> string list \<Rightarrow> bool" where
  "simpleCycle adj c =
     (distinct c \<and> 3 \<le> length c \<and> length c \<le> 5 \<and> successively (edge adj) c
      \<and> edge adj (last c) (hd c))"

text \<open>A 3-cycle through an account whose name holds the character \<open>|\<close>, and a 4-cycle,
  sharing the edge from \<open>c\<close> to \<open>d\<close>.\<close>

definition barNames :: "Transaction list" where
  "barNames = [mkTx ''T1'' ''a|b'' ''c'' 100 ''2024-01-01T00:00:00Z'',
               mkTx ''T2'' ''c'' ''d'' 100 ''2024-01-01T00:00:00Z'',
               mkTx ''T3'' ''d'' ''a|b'' 100 ''2024-01-01T00:00:00Z'',
               mkTx ''T4'' ''a'' ''b'' 100 ''2024-01-01T00:00:00Z'',
               mkTx ''T5'' ''b'' ''c'' 100 ''2024-01-01T00:00:00Z'',
               mkTx ''T6'' ''d'' ''a'' 100 ''2024-01-01T00:00:00Z'']"

text \<open>An account of low degree: 2 or 3 transaction endpoints in the statistics.\<close>

definition lowDegree :: "(string \<times> AccountStats) list \<Rightarrow> string \<Rightarrow> bool" where
  "lowDegree accountStats a = (2 \<le> totalTxOf accountStats a \<and> totalTxOf accountStats a \<le> 3)"

text \<open>A shell chain: at least three distinct accounts in path order, none of them
  excluded, every interior one (all but the first and the last) of low degree.\<close>

definition shellChain ::
  "adjacency \<Rightarrow> (string \<times> AccountStats) list \<Rightarrow> string set \<Rightarrow> string list \<Rightarrow> bool" where
  "shellChain adj accountStats excluded ch =
     (distinct ch \<and> 3 \<le> length ch \<and> successively (edge adj) ch \<and> set ch \<inter> excluded = {}
      \<and> list_all (lowDegree accountStats) (butlast (tl ch)))"

text \<open>A 3-cycle and, apart from it, a chain of four accounts.\<close>

definition cycleAndChain :: "Transaction list" where
  "cycleAndChain = [mkTx ''T1'' ''A'' ''B'' 100 ''2024-01-01T00:00:00Z'',
                    mkTx ''T2'' ''B'' ''C'' 100 ''2024-01-01T01:00:00Z'',
                    mkTx ''T3'' ''C'' ''A'' 100 ''2024-01-01T02:00:00Z'',
                    mkTx ''T4'' ''P'' ''Q'' 70 ''2024-01-02T00:00:00Z'',
                    mkTx ''T5'' ''Q'' ''R'' 60 ''2024-01-02T01:00:00Z'',
                    mkTx ''T6'' ''R'' ''S'' 50 ''2024-01-02T02:00:00Z'']"

text \<open>An account name: a letter followed by the decimal digits of a number.\<close>

definition acct :: "char \<Rightarrow> nat \<Rightarrow> string" where
  "acct r i = r # stringOfNat i"

text \<open>Scenario A of the specification on the accounts \<open>Ai\<close>, \<open>Bi\<close> and \<open>Ci\<close>.\<close>

definition triangle :: "nat \<Rightarrow> Transaction list" where
  "triangle i =
     [mkTx (''T'' @ stringOfNat i @ ''a'') (acct (CHR ''A'') i) (acct (CHR ''B'') i) 100 ''2024-01-01T00:00:00Z'',
      mkTx (''T'' @ stringOfNat i @ ''b'') (acct (CHR ''B'') i) (acct (CHR ''C'') i) 100 ''2024-01-01T01:00:00Z'',
      mkTx (''T'' @ stringOfNat i @ ''c'') (acct (CHR ''C'') i) (acct (CHR ''A'') i) 100 ''2024-01-01T02:00:00Z'']"

text \<open>The batch of \<open>n\<close> such cycles, on \<open>3 * n\<close> accounts: \<open>A0\<close>, \<open>B0\<close>, \<open>C0\<close>, \<open>A1\<close> and so on.\<close>

definition triangles :: "nat \<Rightarrow> Transaction list" where
  "triangles n = concat (map triangle [0 ..< n])"

text \<open>The format of the identifier of the \<open>k\<close>-th ring: \<open>RING_\<close>, then the decimal digits
  of \<open>k\<close>, three of them when \<open>k\<close> is below 1000 (with leading zeros), and with no leading
  zero otherwise.\<close>

definition ringIdFormat :: "nat \<Rightarrow> string \<Rightarrow> bool" where
  "ringIdFormat k s =
     (take 5 s = ''RING_''
      \<and> set (drop 5 s) \<subseteq> set ''0123456789''
      \<and> natOfDigits (drop 5 s) = k
      \<and> (if k < 1000 then length (drop 5 s) = 3 else hd (drop 5 s) \<noteq> CHR ''0''))"

section \<open>Rewriting discipline\<close>

text \<open>The equations of the recursive searches and of the digit conversion are used on
  demand only.\<close>

declare dfsCycle.simps [simp del] dfsShell.simps [simp del] stringOfNat.simps [simp del]

section \<open>Containers\<close>

lemma set_setAdd [simp]: "set (setAdd x s) = insert x (set s)"
  by (auto simp: setAdd_def)

lemma distinct_setAdd [simp]: "distinct (setAdd x s) = distinct s"
  by (auto simp: setAdd_def)

lemma setAdd_new: "x \<notin> set s \<Longrightarrow> setAdd x s = s @ [x]"
  by (simp add: setAdd_def)

lemma setAdd_neq_Nil [simp]: "setAdd x s \<noteq> []"
  by (auto simp: setAdd_def)

lemma newSet_foldl: "set (foldl (\<lambda>s x. setAdd x s) acc xs) = set acc \<union> set xs"
  by (induction xs arbitrary: acc) auto

lemma distinct_newSet_foldl: "distinct acc \<Longrightarrow> distinct (foldl (\<lambda>s x. setAdd x s) acc xs)"
  by (induction xs arbitrary: acc) auto

lemma set_newSet [simp]: "set (newSet xs) = set xs"
  by (simp add: newSet_def newSet_foldl)

lemma distinct_newSet [simp]: "distinct (newSet xs)"
  by (simp add: newSet_def distinct_newSet_foldl)

lemma keys_mapModify [simp]: "map fst (mapModify k f m) = map fst m"
  by (induction m) (auto simp: mapModify_def)

lemma keys_mapModify_set [simp]: "fst ` set (mapModify k f m) = fst ` set m"
  using keys_mapModify [of k f m] by (metis set_map)

lemma keys_mapInit [simp]: "fst ` set (mapInit k v m) = insert k (fst ` set m)"
  by (auto simp: mapInit_def mapHas_def)

lemma distinct_mapInit [simp]: "distinct (map fst (mapInit k v m)) = distinct (map fst m)"
  by (auto simp: mapInit_def mapHas_def)

lemma mapGet_mapModify:
  "mapGet (mapModify k f m) x = (if x = k then map_option f (mapGet m k) else mapGet m x)"
  by (induction m) (auto simp: mapModify_def mapGet_def)

lemma mapGet_mapInit:
  "mapGet (mapInit k v m) x =
     (case mapGet m x of Some y \<Rightarrow> Some y | None \<Rightarrow> if x = k then Some v else None)"
  by (auto simp: mapInit_def mapGet_def mapHas_def map_add_def split: option.splits
           dest: weak_map_of_SomeI map_of_SomeD)

lemma mapHas_mapGet: "mapHas k m = (mapGet m k \<noteq> None)"
  by (simp add: mapHas_def mapGet_def map_of_eq_None_iff)

text \<open>The value under a key after \<open>init\<close> and \<open>modify\<close> of that key.\<close>

lemma mapGet_touch:
  "mapGet (mapModify k f (mapInit k v m)) x =
     (if x = k then Some (f (case mapGet m k of None \<Rightarrow> v | Some y \<Rightarrow> y)) else mapGet m x)"
  by (auto simp: mapGet_mapModify mapGet_mapInit split: option.splits)

section \<open>Account statistics in closed form\<close>

lemma statOf_statsStep:
  "statOf (statsStep g stats tx) a =
     (if a = receiver_id tx then statsReceive tx (g (timestamp tx)) else (\<lambda>s. s))
       ((if a = sender_id tx then statsSend tx (g (timestamp tx)) else (\<lambda>s. s)) (statOf stats a))"
  by (auto simp: statOf_def statsStep_def Let_def mapGet_mapModify mapGet_mapInit
           split: option.splits)

lemma computeAccountStats_snoc:
  "computeAccountStats g (txs @ [tx]) = statsStep g (computeAccountStats g txs) tx"
  by (simp add: computeAccountStats_def)

lemma statOf_empty [simp]: "statOf [] a = emptyStats"
  by (simp add: statOf_def mapGet_def)

lemma computeAccountStats_Nil [simp]: "computeAccountStats g [] = []"
  by (simp add: computeAccountStats_def)

lemma totalSent_closed:
  "totalSent (statOf (computeAccountStats g txs) a)
     = sum_list (map amount (filter (\<lambda>t. sender_id t = a) txs))"
  by (induction txs rule: rev_induct)
     (auto simp: computeAccountStats_snoc statOf_statsStep statsSend_def statsReceive_def emptyStats_def)

lemma totalReceived_closed:
  "totalReceived (statOf (computeAccountStats g txs) a)
     = sum_list (map amount (filter (\<lambda>t. receiver_id t = a) txs))"
  by (induction txs rule: rev_induct)
     (auto simp: computeAccountStats_snoc statOf_statsStep statsSend_def statsReceive_def emptyStats_def)

lemma sendCount_closed:
  "sendCount (statOf (computeAccountStats g txs) a) = length (filter (\<lambda>t. sender_id t = a) txs)"
  by (induction txs rule: rev_induct)
     (auto simp: computeAccountStats_snoc statOf_statsStep statsSend_def statsReceive_def emptyStats_def)

lemma receiveCount_closed:
  "receiveCount (statOf (computeAccountStats g txs) a) = length (filter (\<lambda>t. receiver_id t = a) txs)"
  by (induction txs rule: rev_induct)
     (auto simp: computeAccountStats_snoc statOf_statsStep statsSend_def statsReceive_def emptyStats_def)

lemma totalTransactions_closed:
  "totalTransactions (statOf (computeAccountStats g txs) a)
     = length (filter (\<lambda>t. sender_id t = a) txs) + length (filter (\<lambda>t. receiver_id t = a) txs)"
  by (induction txs rule: rev_induct)
     (auto simp: computeAccountStats_snoc statOf_statsStep statsSend_def statsReceive_def emptyStats_def)

lemma senders_closed:
  "set (senders (statOf (computeAccountStats g txs) a))
     = set (map sender_id (filter (\<lambda>t. receiver_id t = a) txs))"
  by (induction txs rule: rev_induct)
     (auto simp: computeAccountStats_snoc statOf_statsStep statsSend_def statsReceive_def emptyStats_def)

lemma receivers_closed:
  "set (receivers (statOf (computeAccountStats g txs) a))
     = set (map receiver_id (filter (\<lambda>t. sender_id t = a) txs))"
  by (induction txs rule: rev_induct)
     (auto simp: computeAccountStats_snoc statOf_statsStep statsSend_def statsReceive_def emptyStats_def)

lemma totalTxOf_statOf: "totalTxOf stats a = totalTransactions (statOf stats a)"
  by (simp add: totalTxOf_def statOf_def emptyStats_def split: option.splits)

section \<open>The account universe\<close>

lemma getAllAccounts_snoc:
  "getAllAccounts (txs @ [tx]) = setAdd (receiver_id tx) (setAdd (sender_id tx) (getAllAccounts txs))"
  by (simp add: getAllAccounts_def)

lemma set_getAllAccounts: "set (getAllAccounts txs) = sender_id ` set txs \<union> receiver_id ` set txs"
  by (induction txs rule: rev_induct) (auto simp: getAllAccounts_snoc getAllAccounts_def)

lemma distinct_getAllAccounts [simp]: "distinct (getAllAccounts txs)"
  by (induction txs rule: rev_induct) (auto simp: getAllAccounts_snoc getAllAccounts_def)

section \<open>Ring assembly: the four loops as one scheme\<close>

lemma cycleStep_emit:
  "cycleStep st c = emitRing ''cycle'' c (cycleRisk (length c)) (\<lambda>rid. cycleMember rid (length c)) st"
  by (simp add: cycleStep_def emitRing_def nextRingId_def Let_def cycleRisk_def)

lemma fanInStep_emit:
  "fanInStep st e = emitRing ''fan_in'' (fst e # fanInSenders (snd e))
      (fanRisk (fanInTemporal (snd e)) (length (fanInSenders (snd e)))) (tagMember ''fan_in'') st"
  by (simp add: fanInStep_def emitRing_def nextRingId_def Let_def fanRisk_def)

lemma fanOutStep_emit:
  "fanOutStep st e = emitRing ''fan_out'' (fst e # fanOutReceivers (snd e))
      (fanRisk (fanOutTemporal (snd e)) (length (fanOutReceivers (snd e)))) (tagMember ''fan_out'') st"
  by (simp add: fanOutStep_def emitRing_def nextRingId_def Let_def fanRisk_def)

lemma shellStep_emit:
  "shellStep st c = emitRing ''shell_network'' c (shellRisk (length c)) (tagMember ''shell_network'') st"
  by (simp add: shellStep_def emitRing_def nextRingId_def Let_def shellRisk_def)

section \<open>Tagging the members of a ring\<close>

lemma keys_touch [simp]: "fst ` set (touch k x m) = insert k (fst ` set m)"
  by (simp add: touch_def)

lemma distinct_touch [simp]: "distinct (map fst (touch k x m)) = distinct (map fst m)"
  by (simp add: touch_def)

lemma nonempty_touch:
  "list_all (\<lambda>e. snd e \<noteq> []) m \<Longrightarrow> list_all (\<lambda>e. snd e \<noteq> []) (touch k x m)"
  by (auto simp: touch_def mapModify_def mapInit_def list_all_iff split: if_splits)

lemma keys_touchAll [simp]: "fst ` set (touchAll x m ks) = fst ` set m \<union> set ks"
  unfolding touchAll_def by (induction ks arbitrary: m) auto

lemma distinct_touchAll [simp]: "distinct (map fst (touchAll x m ks)) = distinct (map fst m)"
  unfolding touchAll_def by (induction ks arbitrary: m) auto

lemma nonempty_touchAll:
  "list_all (\<lambda>e. snd e \<noteq> []) m \<Longrightarrow> list_all (\<lambda>e. snd e \<noteq> []) (touchAll x m ks)"
  unfolding touchAll_def by (induction ks arbitrary: m) (auto simp: nonempty_touch)

lemma tagMember_fields [simp]:
  "fraudRings (tagMember p rid s a) = fraudRings s"
  "ringCounter (tagMember p rid s a) = ringCounter s"
  "ringDeduplicationSet (tagMember p rid s a) = ringDeduplicationSet s"
  "cycleNodes (tagMember p rid s a) = cycleNodes s"
  "accountCycleCounts (tagMember p rid s a) = accountCycleCounts s"
  "accountPatterns (tagMember p rid s a) = touch a p (accountPatterns s)"
  "accountRings (tagMember p rid s a) = touch a rid (accountRings s)"
  by (simp_all add: tagMember_def addPattern_def addRing_def touch_def)

lemma cycleMember_fields [simp]:
  "fraudRings (cycleMember rid n s a) = fraudRings s"
  "ringCounter (cycleMember rid n s a) = ringCounter s"
  "ringDeduplicationSet (cycleMember rid n s a) = ringDeduplicationSet s"
  "cycleNodes (cycleMember rid n s a) = setAdd a (cycleNodes s)"
  "accountPatterns (cycleMember rid n s a) = touch a (''cycle_length_'' @ stringOfNat n) (accountPatterns s)"
  "accountRings (cycleMember rid n s a) = touch a rid (accountRings s)"
  by (simp_all add: cycleMember_def addPattern_def addRing_def touch_def Let_def)

lemma foldl_tagMember_fields [simp]:
  "fraudRings (foldl (tagMember p rid) s xs) = fraudRings s"
  "ringCounter (foldl (tagMember p rid) s xs) = ringCounter s"
  "ringDeduplicationSet (foldl (tagMember p rid) s xs) = ringDeduplicationSet s"
  "cycleNodes (foldl (tagMember p rid) s xs) = cycleNodes s"
  "accountCycleCounts (foldl (tagMember p rid) s xs) = accountCycleCounts s"
  "accountPatterns (foldl (tagMember p rid) s xs) = touchAll p (accountPatterns s) xs"
  "accountRings (foldl (tagMember p rid) s xs) = touchAll rid (accountRings s) xs"
  by (induction xs arbitrary: s) (simp_all add: touchAll_def)

lemma foldl_cycleMember_fields [simp]:
  "fraudRings (foldl (cycleMember rid n) s xs) = fraudRings s"
  "ringCounter (foldl (cycleMember rid n) s xs) = ringCounter s"
  "ringDeduplicationSet (foldl (cycleMember rid n) s xs) = ringDeduplicationSet s"
  "set (cycleNodes (foldl (cycleMember rid n) s xs)) = set (cycleNodes s) \<union> set xs"
  "accountPatterns (foldl (cycleMember rid n) s xs)
     = touchAll (''cycle_length_'' @ stringOfNat n) (accountPatterns s) xs"
  "accountRings (foldl (cycleMember rid n) s xs) = touchAll rid (accountRings s) xs"
  by (induction xs arbitrary: s) (simp_all add: touchAll_def)

section \<open>The invariant of ring assembly\<close>

lemma membersOf_snoc [simp]:
  "membersOf (rings @ [r]) = membersOf rings \<union> set (member_accounts r)"
  by (auto simp: membersOf_def)

lemma membersOf_Nil [simp]: "membersOf [] = {}"
  by (simp add: membersOf_def)

lemma ringInv_initial: "ringInv initialState"
  by (simp add: ringInv_def initialState_def)

lemma ringInv_emit_tag:
  assumes "ringInv st" "ptype \<noteq> ''cycle''"
  shows "ringInv (emitRing ptype members risk (tagMember p) st)"
  using assms
  by (auto simp: ringInv_def emitRing_def Let_def ringKey_def nonempty_touchAll setAdd_new)

lemma ringInv_emit_cycle:
  assumes "ringInv st"
  shows "ringInv (emitRing ''cycle'' members risk (\<lambda>rid. cycleMember rid n) st)"
  using assms
  by (auto simp: ringInv_def emitRing_def Let_def ringKey_def nonempty_touchAll setAdd_new)

lemma ringInv_cycles: "ringInv st \<Longrightarrow> ringInv (foldl cycleStep st cs)"
  by (induction cs arbitrary: st) (simp_all add: cycleStep_emit ringInv_emit_cycle)

lemma ringInv_fanIn: "ringInv st \<Longrightarrow> ringInv (foldl fanInStep st es)"
  by (induction es arbitrary: st) (simp_all add: fanInStep_emit ringInv_emit_tag)

lemma ringInv_fanOut: "ringInv st \<Longrightarrow> ringInv (foldl fanOutStep st es)"
  by (induction es arbitrary: st) (simp_all add: fanOutStep_emit ringInv_emit_tag)

lemma ringInv_shell: "ringInv st \<Longrightarrow> ringInv (foldl shellStep st cs)"
  by (induction cs arbitrary: st) (simp_all add: shellStep_emit ringInv_emit_tag)

lemma ringInv_assemble: "ringInv (assembleRings g txs ftxs)"
  by (simp add: assembleRings_def Let_def split_def
        ringInv_shell ringInv_fanOut ringInv_fanIn ringInv_cycles ringInv_initial)

section \<open>The result of the analysis, field by field\<close>

lemma analyze_fraud_rings:
  "fraud_rings (analyzeTransactions g txs) =
     (if filteredOf txs = [] then [] else fraudRings (assembleRings g txs (filteredOf txs)))"
  by (simp add: analyzeTransactions_def Let_def split_def filteredOf_def)

lemma analyze_suspicious:
  "suspicious_accounts (analyzeTransactions g txs) =
     (if filteredOf txs = [] then []
      else buildSuspiciousAccounts (fst (detectSmurfing g txs)) (snd (detectSmurfing g txs))
             (computeAccountStats g (filteredOf txs)) (assembleRings g txs (filteredOf txs)))"
  by (simp add: analyzeTransactions_def Let_def split_def filteredOf_def)

lemma analyze_nodes:
  "nodes (analyzeTransactions g txs) =
     (if filteredOf txs = [] then map (emptyNode (detectLegitimateAccounts txs)) (getAllAccounts txs)
      else map (buildNode (detectLegitimateAccounts txs) (computeAccountStats g txs)
                  (assembleRings g txs (filteredOf txs))
                  (suspicious_accounts (analyzeTransactions g txs)))
             (getAllAccounts txs))"
  by (simp add: analyzeTransactions_def Let_def split_def filteredOf_def)

section \<open>Ring identifiers\<close>

lemma digitValue_digit: "k < 10 \<Longrightarrow> digitValue (digit k) = k"
proof -
  assume "k < 10"
  then have "k \<in> {0, 1, 2, 3, 4, 5, 6, 7, 8, 9}" by auto
  then show ?thesis
    by (auto simp: digit_def digitValue_def)
qed

lemma natOfDigits_snoc: "natOfDigits (s @ [c]) = 10 * natOfDigits s + digitValue c"
  by (simp add: natOfDigits_def)

lemma natOfDigits_stringOfNat: "natOfDigits (stringOfNat n) = n"
proof (induction n rule: stringOfNat.induct)
  case (1 n)
  show ?case
  proof (cases "n < 10")
    case True
    then show ?thesis
      using natOfDigits_snoc [of "[]" "digit n"]
      by (simp add: stringOfNat.simps digitValue_digit natOfDigits_def)
  next
    case False
    then have "natOfDigits (stringOfNat n) = 10 * (n div 10) + n mod 10"
      using 1 by (simp add: stringOfNat.simps [of n] natOfDigits_snoc digitValue_digit)
    then show ?thesis by simp
  qed
qed

lemma natOfDigits_zeros: "natOfDigits (replicate k (CHR ''0'') @ s) = natOfDigits s"
proof -
  have "foldl (\<lambda>n c. 10 * n + digitValue c) 0 (replicate k (CHR ''0'')) = 0"
    by (induction k) (simp_all add: digitValue_def)
  then show ?thesis by (simp add: natOfDigits_def)
qed

lemma ringIdOf_suffix: "natOfDigits (drop 5 (ringIdOf n)) = n"
  by (simp add: ringIdOf_def padStart_def natOfDigits_zeros natOfDigits_stringOfNat)

lemma emitRing_rejected:
  "makeRingDeduplicationKey members ptype \<in> set (ringDeduplicationSet st)
     \<Longrightarrow> emitRing ptype members risk m st = st"
  by (simp add: emitRing_def)

lemma emitRing_effect_tag:
  "candidateEffect (emitRing ptype members risk (tagMember p) st) st
     (makeRingDeduplicationKey members ptype)"
  by (simp add: candidateEffect_def emitRing_def Let_def)

lemma emitRing_effect_cycle:
  "candidateEffect (emitRing ptype members risk (\<lambda>rid. cycleMember rid n) st) st
     (makeRingDeduplicationKey members ptype)"
  by (simp add: candidateEffect_def emitRing_def Let_def)

lemma assembled_ring_ids:
  "map ring_id (fraudRings (assembleRings g txs ftxs))
     = map (\<lambda>i. ringIdOf (Suc i)) [0 ..< length (fraudRings (assembleRings g txs ftxs))]"
  using ringInv_assemble [of g txs ftxs] by (simp add: ringInv_def)

lemma digit_mem: "k < 10 \<Longrightarrow> digit k \<in> set ''0123456789''"
  unfolding digit_def by (intro nth_mem) simp

lemma stringOfNat_digits: "set (stringOfNat n) \<subseteq> set ''0123456789''"
proof (induction n rule: stringOfNat.induct)
  case (1 n)
  show ?case
  proof (cases "n < 10")
    case True
    with digit_mem [of n] show ?thesis by (simp add: stringOfNat.simps [of n])
  next
    case False
    with 1 digit_mem [of "n mod 10"] show ?thesis
      by (subst stringOfNat.simps) auto
  qed
qed

lemma stringOfNat_length_le: "n < 10 ^ Suc k \<Longrightarrow> length (stringOfNat n) \<le> Suc k"
proof (induction k arbitrary: n)
  case 0
  then show ?case by (simp add: stringOfNat.simps [of n])
next
  case (Suc k)
  show ?case
  proof (cases "n < 10")
    case True
    then show ?thesis by (simp add: stringOfNat.simps [of n])
  next
    case False
    from Suc.prems have "n div 10 < 10 ^ Suc k" by (simp add: less_mult_imp_div_less)
    from Suc.IH [OF this] False show ?thesis by (simp add: stringOfNat.simps [of n])
  qed
qed

lemma stringOfNat_length_gt: "10 ^ k \<le> n \<Longrightarrow> k < length (stringOfNat n)"
proof (induction k arbitrary: n)
  case 0
  then show ?case by (simp add: stringOfNat.simps [of n])
next
  case (Suc k)
  then have "\<not> n < 10" by (cases "n < 10") (auto simp: not_le [symmetric] intro: order_trans [of 10 "10 * 10 ^ k"])
  moreover from Suc.prems have "10 ^ k \<le> n div 10" by (simp add: less_eq_div_iff_mult_less_eq)
  ultimately show ?case using Suc.IH [of "n div 10"] by (simp add: stringOfNat.simps [of n])
qed

lemma stringOfNat_nonempty: "stringOfNat n \<noteq> []"
  by (simp add: stringOfNat.simps [of n])

lemma digit_nonzero: "0 < k \<Longrightarrow> k < 10 \<Longrightarrow> digit k \<noteq> CHR ''0''"
proof -
  assume "0 < k" "k < 10"
  then have "k \<in> {1, 2, 3, 4, 5, 6, 7, 8, 9}" by auto
  then show ?thesis by (auto simp: digit_def)
qed

lemma stringOfNat_no_leading_zero: "0 < n \<Longrightarrow> hd (stringOfNat n) \<noteq> CHR ''0''"
proof (induction n rule: stringOfNat.induct)
  case (1 n)
  show ?case
  proof (cases "n < 10")
    case True
    with 1 show ?thesis by (simp add: stringOfNat.simps [of n] digit_nonzero)
  next
    case False
    then have "0 < n div 10" by (simp add: div_greater_zero_iff)
    with 1 False show ?thesis
      by (simp add: stringOfNat.simps [of n] stringOfNat_nonempty)
  qed
qed

lemma ringIdOf_format: "0 < k \<Longrightarrow> ringIdFormat k (ringIdOf k)"
proof -
  assume k: "0 < k"
  have d: "drop 5 (ringIdOf k) = padStart 3 (CHR ''0'') (stringOfNat k)"
    and t: "take 5 (ringIdOf k) = ''RING_''"
    by (simp_all add: ringIdOf_def)
  have z: "set (replicate m (CHR ''0'')) \<subseteq> set ''0123456789''" for m
    by (simp add: set_replicate_conv_if)
  have digits: "set (padStart 3 (CHR ''0'') (stringOfNat k)) \<subseteq> set ''0123456789''"
    by (simp only: padStart_def set_append Un_subset_iff z stringOfNat_digits simp_thms)
  have len: "length (padStart 3 (CHR ''0'') (stringOfNat k)) = 3" if "k < 1000"
    using stringOfNat_length_le [of k 2] that by (simp add: padStart_def)
  have lead: "hd (padStart 3 (CHR ''0'') (stringOfNat k)) \<noteq> CHR ''0''" if "\<not> k < 1000"
  proof -
    from that have "3 < length (stringOfNat k)"
      by (intro stringOfNat_length_gt) simp
    then have "padStart 3 (CHR ''0'') (stringOfNat k) = stringOfNat k"
      by (simp add: padStart_def)
    with stringOfNat_no_leading_zero [OF k] show ?thesis by simp
  qed
  from ringIdOf_suffix [of k] digits len lead show ?thesis
    unfolding ringIdFormat_def d t by simp
qed

text \<open>
  Claim C5. The identifier of the ring emitted in position \<open>i\<close> (counting from 0) is
  \<open>RING_\<close> followed by the decimal digits of \<open>i + 1\<close>: exactly three digits, with leading
  zeros, for the first 999 rings, and the digits of the number with no leading zero from
  the thousandth ring on. Read back as integers the suffixes are \<open>1, 2, \<dots>, n\<close> in
  emission order, \<open>n\<close> the number of emitted rings. In each of the four assembly loops a
  candidate whose deduplication key has been seen leaves the whole state unchanged (no
  ring, no counter increment); any other candidate increments the counter by one and
  appends one ring, whose identifier is made from the counter's value before the
  increment.
\<close>

theorem ring_ids_contiguous:
  "(\<forall>i < length (fraud_rings (analyzeTransactions g txs)).
      ringIdFormat (i + 1) (ring_id (fraud_rings (analyzeTransactions g txs) ! i)))
   \<and> map (\<lambda>r. natOfDigits (drop 5 (ring_id r))) (fraud_rings (analyzeTransactions g txs))
     = [1 ..< Suc (length (fraud_rings (analyzeTransactions g txs)))]
   \<and> candidateEffect (cycleStep st c) st (makeRingDeduplicationKey c ''cycle'')
   \<and> candidateEffect (fanInStep st fi) st
       (makeRingDeduplicationKey (fst fi # fanInSenders (snd fi)) ''fan_in'')
   \<and> candidateEffect (fanOutStep st fo) st
       (makeRingDeduplicationKey (fst fo # fanOutReceivers (snd fo)) ''fan_out'')
   \<and> candidateEffect (shellStep st c) st (makeRingDeduplicationKey c ''shell_network'')"
proof -
  let ?rs = "fraud_rings (analyzeTransactions g txs)"
  have ids: "map ring_id ?rs = map (\<lambda>i. ringIdOf (Suc i)) [0 ..< length ?rs]"
    by (simp add: analyze_fraud_rings assembled_ring_ids)
  have format: "ringIdFormat (i + 1) (ring_id (?rs ! i))" if "i < length ?rs" for i
  proof -
    from arg_cong [OF ids, of "\<lambda>l. l ! i"] that have "ring_id (?rs ! i) = ringIdOf (Suc i)"
      by simp
    with ringIdOf_format [of "Suc i"] show ?thesis by simp
  qed
  have "map (\<lambda>r. natOfDigits (drop 5 (ring_id r))) ?rs
          = map (\<lambda>s. natOfDigits (drop 5 s)) (map ring_id ?rs)"
    by (simp add: comp_def)
  also have "\<dots> = map Suc [0 ..< length ?rs]"
    by (subst ids) (simp add: ringIdOf_suffix comp_def)
  also have "\<dots> = [1 ..< Suc (length ?rs)]"
    by (simp add: map_Suc_upt)
  finally have nums: "map (\<lambda>r. natOfDigits (drop 5 (ring_id r))) ?rs = [1 ..< Suc (length ?rs)]" .
  show ?thesis
    using format nums
    by (simp add: cycleStep_emit fanInStep_emit fanOutStep_emit shellStep_emit
          emitRing_effect_tag emitRing_effect_cycle)
qed

section \<open>Evaluation on concrete batches\<close>

text \<open>A concrete batch is evaluated by rewriting with the definitions, binding values
  before bodies (\<open>let_weak_cong\<close>); the assembly steps are unfolded through their common
  scheme, the result of the analysis field by field.\<close>

lemma replicate_small:
  "replicate 1 c = [c]" "replicate 2 c = [c, c]" "replicate 3 c = [c, c, c]"
  by (simp_all add: numeral_eq_Suc)

lemma assembleRings_eval:
  "assembleRings g txs ftxs =
     (let adj = buildAdjacencyList ftxs;
          accountStats = computeAccountStats g ftxs;
          st1 = foldl cycleStep initialState (detectCycles adj (getAllAccounts ftxs));
          st2 = foldl fanInStep st1 (fst (detectSmurfing g txs));
          st3 = foldl fanOutStep st2 (snd (detectSmurfing g txs))
      in foldl shellStep st3 (detectShellNetworks adj accountStats (cycleNodes st3)))"
  by (simp add: assembleRings_def Let_def split_def)

lemmas container_defs = setAdd_def newSet_def mapHas_def mapGet_def mapInit_def mapModify_def mapSet_def
lemmas string_defs = toUpperCase_def toUpperChar_def digit_def padStart_def ringIdOf_def
  stringOfNat.simps replicate_small
lemmas legit_defs = detectLegitimateAccounts_def gatherStep_def emptyTxs_def isLegitimate_def
  hasBusinessName_def businessKeywords_def removeLegitimateTransactions_def
lemmas graph_defs = buildAdjacencyList_def adjStep_def getAllAccounts_def neighbors_def
lemmas stats_defs = computeAccountStats_def statsStep_def statsSend_def statsReceive_def emptyStats_def
  totalTxOf_def
lemmas cycle_defs = detectCycles_def allCycles_def dedupStep_def normalizeCycle_def minMember_def
  indexOf_def dfsCycle.simps
lemmas smurf_defs = detectSmurfing_def fanInAccountsOf_def fanOutAccountsOf_def groupBy_def groupPush_def
  MIN_CONNECTIONS_def temporalCluster_def sortNumbers_def inWindow_def WINDOW_MS_def
lemmas shell_defs = detectShellNetworks_def allShellChains_def shellChainsFrom_def subsetStep_def
  terminalChains_def dfsShell.simps
lemmas ring_eval = assembleRings_eval initialState_def addPattern_def addRing_def cycleCountOf_def
  cycleMember_def tagMember_def cycleStep_emit fanInStep_emit fanOutStep_emit shellStep_emit emitRing_def
  makeRingDeduplicationKey_def round1_def mathRound_def cycleRisk_def fanRisk_def shellRisk_def
  touchAll_def touch_def
lemmas proj_eval = fanInTemporalOf_def fanOutTemporalOf_def suspiciousEntry_def
  buildSuspiciousAccounts_def buildNode_def edgeOf_def emptyNode_def
  analyze_fraud_rings analyze_suspicious analyze_nodes filteredOf_def
  calculateSuspicionScore_def patternScore_def flowBonus_def
lemmas engine_eval = container_defs string_defs legit_defs graph_defs stats_defs cycle_defs smurf_defs
  shell_defs ring_eval proj_eval Let_def

section \<open>Suspicion score: the pass-through bonus\<close>

lemma flowBonus_spec:
  "flowBonus a st = (case mapGet st a of None \<Rightarrow> 0
      | Some s \<Rightarrow> if passThroughSpec (totalSent s) (totalReceived s) then 10 else 0)"
proof (cases "mapGet st a")
  case None
  then show ?thesis by (simp add: flowBonus_def)
next
  case (Some s)
  define x where "x = totalSent s"
  define y where "y = totalReceived s"
  have pos: "0 < x \<and> 0 < y" if "0 < max x y" "7 / 10 < min x y / max x y"
  proof -
    have "0 < min x y"
    proof (rule ccontr)
      assume "\<not> 0 < min x y"
      then have "min x y \<le> 0" by (simp only: not_less)
      then have "min x y / max x y \<le> 0" using that(1) by (rule divide_nonpos_pos)
      with that(2) show False by linarith
    qed
    then show ?thesis by simp
  qed
  have "(0 < x + y \<and> 0 < max x y \<and> 7 / 10 < min x y / max x y \<and> min x y / max x y < 1)
          = passThroughSpec x y"
    unfolding passThroughSpec_def using pos by (auto simp: max_def)
  then show ?thesis
    using Some by (auto simp: flowBonus_def Let_def x_def y_def)
qed

text \<open>
  Claim C8. The score of an account is the pattern score plus ten points exactly when
  the account has statistics whose totals sent and received are both positive and whose
  flow ratio lies strictly between 0.7 and 1.0, capped at 100 and rounded to one
  decimal. Equal totals (ratio exactly 1.0) never satisfy the condition, and on the pure
  3-cycle with equal amounts every member is reported with score 35.0 and the single
  pattern \<open>cycle_length_3\<close>.
\<close>

theorem pass_through_bonus:
  "calculateSuspicionScore a ps st cc hub shell tf =
     round1 (min (patternScore ps cc tf
                  + (case mapGet st a of None \<Rightarrow> 0
                     | Some s \<Rightarrow> if passThroughSpec (totalSent s) (totalReceived s) then 10 else 0))
               100)
   \<and> \<not> passThroughSpec x x
   \<and> map (\<lambda>s. (account_id s, suspicion_score s, detected_patterns s))
        (suspicious_accounts (analyzeTransactions getTime pureCycle))
      = [(''A'', 35, [''cycle_length_3'']), (''B'', 35, [''cycle_length_3'']),
         (''C'', 35, [''cycle_length_3''])]"
proof (intro conjI)
  show "calculateSuspicionScore a ps st cc hub shell tf =
     round1 (min (patternScore ps cc tf
                  + (case mapGet st a of None \<Rightarrow> 0
                     | Some s \<Rightarrow> if passThroughSpec (totalSent s) (totalReceived s) then 10 else 0))
               100)"
    unfolding calculateSuspicionScore_def Let_def flowBonus_spec ..
  show "\<not> passThroughSpec x x"
    by (simp add: passThroughSpec_def)
  show "map (\<lambda>s. (account_id s, suspicion_score s, detected_patterns s))
        (suspicious_accounts (analyzeTransactions getTime pureCycle))
      = [(''A'', 35, [''cycle_length_3'']), (''B'', 35, [''cycle_length_3'']),
         (''C'', 35, [''cycle_length_3''])]"
    by (simp add: pureCycle_def mkTx_def engine_eval cong: let_weak_cong)
qed

section \<open>Node statistics\<close>

lemma buildNode_stats:
  "total_sent (buildNode legit stats st sus a) = totalSent (statOf stats a)"
  "total_received (buildNode legit stats st sus a) = totalReceived (statOf stats a)"
  "transaction_count (buildNode legit stats st sus a) = totalTransactions (statOf stats a)"
  "node_id (buildNode legit stats st sus a) = a"
  by (simp_all add: buildNode_def Let_def statOf_def emptyStats_def split: option.splits)

text \<open>When the filter leaves at least one transaction, every node carries the sums and
  the endpoint count of the unfiltered batch.\<close>

lemma node_stats_unfiltered:
  assumes "filteredOf txs \<noteq> []" "n \<in> set (nodes (analyzeTransactions g txs))"
  shows "total_sent n = sum_list (map amount (filter (\<lambda>t. sender_id t = node_id n) txs))
       \<and> total_received n = sum_list (map amount (filter (\<lambda>t. receiver_id t = node_id n) txs))
       \<and> transaction_count n = length (filter (\<lambda>t. sender_id t = node_id n) txs)
                                + length (filter (\<lambda>t. receiver_id t = node_id n) txs)"
  using assms
  by (auto simp: analyze_nodes buildNode_stats totalSent_closed totalReceived_closed
        totalTransactions_closed)

lemma node_ids: "map node_id (nodes (analyzeTransactions g txs)) = getAllAccounts txs"
  by (simp add: analyze_nodes buildNode_stats emptyNode_def comp_def)

text \<open>
  Claim C2 says that every node carries the sums and the endpoint count of the
  unfiltered batch, also when the filter removes every transaction. On Scenario C of the
  specification (ten transfers of 2000 from \<open>ACME_CORP_PAYROLL\<close>) the filter removes
  every transaction and the early return reports 0 sent, 0 received and 0 transactions
  for every account, while the payroll account sent 20000 in 10 transactions and
  \<open>E1\<close> received 2000.
\<close>

theorem empty_filter_nodes_are_zero:
  "map (\<lambda>n. (node_id n, total_sent n, total_received n, transaction_count n))
      (nodes (analyzeTransactions getTime payrollBatch))
     = [(''ACME_CORP_PAYROLL'', 0, 0, 0), (''E1'', 0, 0, 0), (''E2'', 0, 0, 0), (''E3'', 0, 0, 0),
        (''E4'', 0, 0, 0), (''E5'', 0, 0, 0), (''E6'', 0, 0, 0), (''E7'', 0, 0, 0),
        (''E8'', 0, 0, 0), (''E9'', 0, 0, 0), (''E10'', 0, 0, 0)]
   \<and> sum_list (map amount (filter (\<lambda>t. sender_id t = ''ACME_CORP_PAYROLL'') payrollBatch)) = 20000
   \<and> sum_list (map amount (filter (\<lambda>t. receiver_id t = ''E1'') payrollBatch)) = 2000
   \<and> length (filter (\<lambda>t. sender_id t = ''ACME_CORP_PAYROLL'') payrollBatch)
       + length (filter (\<lambda>t. receiver_id t = ''ACME_CORP_PAYROLL'') payrollBatch) = 10"
  by (simp add: payrollBatch_def mkTx_def engine_eval cong: let_weak_cong)

section \<open>Legitimate accounts and rings\<close>

text \<open>
  Claim C1 says that an account classified legitimate is a member of no ring. Ten
  senders pay into \<open>BANK\<close> and one unrelated transfer keeps the filtered batch
  non-empty: \<open>BANK\<close> is classified legitimate by its name, and, smurfing detection
  being run on the unfiltered transactions, it is the hub of the emitted fan-in ring
  \<open>RING_001\<close>. Its node is tagged \<open>legitimate_business\<close> only, and at the same time
  marked suspicious and listed with that ring.
\<close>

theorem legitimate_hub_joins_fan_in_ring:
  "detectLegitimateAccounts bankHub = [''BANK'']
   \<and> map (\<lambda>r. (ring_id r, pattern_type r, member_accounts r))
        (fraud_rings (analyzeTransactions getTime bankHub))
      = [(''RING_001'', ''fan_in'',
          [''BANK'', ''S01'', ''S02'', ''S03'', ''S04'', ''S05'', ''S06'', ''S07'', ''S08'', ''S09'', ''S10''])]
   \<and> map (\<lambda>n. (node_id n, suspicious n, patterns n, ring_ids n))
        (filter (\<lambda>n. node_id n = ''BANK'') (nodes (analyzeTransactions getTime bankHub)))
      = [(''BANK'', True, [''legitimate_business''], [''RING_001''])]"
  by (simp add: bankHub_def mkTx_def engine_eval cong: let_weak_cong)

section \<open>Grouping and smurfing detection\<close>

lemma groupBy_snoc: "groupBy key (txs @ [tx]) = groupPush key (groupBy key txs) tx"
  by (simp add: groupBy_def)

lemma distinct_groupBy: "distinct (map fst (groupBy key txs))"
  by (induction txs rule: rev_induct) (simp_all add: groupBy_snoc groupPush_def groupBy_def)

lemma mapGet_groupBy:
  "mapGet (groupBy key txs) k =
     (if k \<in> key ` set txs then Some (filter (\<lambda>t. key t = k) txs) else None)"
proof (induction txs arbitrary: k rule: rev_induct)
  case Nil
  then show ?case by (simp add: groupBy_def mapGet_def)
next
  case (snoc tx txs)
  show ?case
  proof -
    have "key tx \<notin> key ` set txs \<Longrightarrow> filter (\<lambda>t. key t = key tx) txs = []"
      by (metis (mono_tags, lifting) filter_False image_eqI)
    then show ?thesis
      by (auto simp: groupBy_snoc groupPush_def mapGet_touch snoc)
  qed
qed

lemma groupBy_entry:
  assumes "(k, l) \<in> set (groupBy key txs)"
  shows "l = filter (\<lambda>t. key t = k) txs \<and> k \<in> key ` set txs"
proof -
  have "mapGet (groupBy key txs) k = Some l"
    using assms distinct_groupBy [of key txs] by (simp add: mapGet_def)
  then show ?thesis
    by (auto simp: mapGet_groupBy split: if_splits)
qed

lemma fanIn_entry:
  assumes "e \<in> set (fanInAccountsOf g txs)"
  shows "fanInSenders (snd e) = newSet (map sender_id (filter (\<lambda>t. receiver_id t = fst e) txs))
       \<and> fanInTemporal (snd e) = temporalCluster g sender_id (filter (\<lambda>t. receiver_id t = fst e) txs)
       \<and> MIN_CONNECTIONS \<le> length (fanInSenders (snd e))
       \<and> fst e \<in> receiver_id ` set txs"
  using assms
  by (auto simp: fanInAccountsOf_def Let_def split: if_splits dest!: groupBy_entry)

lemma fanOut_entry:
  assumes "e \<in> set (fanOutAccountsOf g txs)"
  shows "fanOutReceivers (snd e) = newSet (map receiver_id (filter (\<lambda>t. sender_id t = fst e) txs))
       \<and> fanOutTemporal (snd e) = temporalCluster g receiver_id (filter (\<lambda>t. sender_id t = fst e) txs)
       \<and> MIN_CONNECTIONS \<le> length (fanOutReceivers (snd e))
       \<and> fst e \<in> sender_id ` set txs"
  using assms
  by (auto simp: fanOutAccountsOf_def Let_def split: if_splits dest!: groupBy_entry)

lemma length_newSet: "length (newSet xs) = length (remdups xs)"
proof -
  have "length (newSet xs) = card (set (newSet xs))"
    by (rule distinct_card [symmetric]) simp
  also have "\<dots> = length (remdups xs)"
    by (simp add: length_remdups_card_conv)
  finally show ?thesis .
qed

section \<open>Where the emitted rings come from\<close>

lemma emit_rings_tag:
  "r \<in> set (fraudRings (emitRing ptype members risk (tagMember p) st))
     \<Longrightarrow> r \<in> set (fraudRings st) \<or> ringShape ptype members risk r"
  by (auto simp: emitRing_def Let_def ringShape_def split: if_splits)

lemma emit_rings_cycle:
  "r \<in> set (fraudRings (emitRing ptype members risk (\<lambda>rid. cycleMember rid n) st))
     \<Longrightarrow> r \<in> set (fraudRings st) \<or> ringShape ptype members risk r"
  by (auto simp: emitRing_def Let_def ringShape_def split: if_splits)

lemma rings_of_cycles:
  "r \<in> set (fraudRings (foldl cycleStep st cs))
     \<Longrightarrow> r \<in> set (fraudRings st) \<or> (\<exists>c \<in> set cs. ringShape ''cycle'' c (cycleRisk (length c)) r)"
proof (induction cs arbitrary: st)
  case Nil
  then show ?case by simp
next
  case (Cons c cs)
  from Cons.IH [OF Cons.prems [simplified]] show ?case
    by (auto simp: cycleStep_emit dest: emit_rings_cycle)
qed

lemma rings_of_fanIn:
  "r \<in> set (fraudRings (foldl fanInStep st es))
     \<Longrightarrow> r \<in> set (fraudRings st)
         \<or> (\<exists>e \<in> set es. ringShape ''fan_in'' (fst e # fanInSenders (snd e))
                (fanRisk (fanInTemporal (snd e)) (length (fanInSenders (snd e)))) r)"
proof (induction es arbitrary: st)
  case Nil
  then show ?case by simp
next
  case (Cons e es)
  from Cons.IH [OF Cons.prems [simplified]] show ?case
    by (auto simp: fanInStep_emit dest: emit_rings_tag)
qed

lemma rings_of_fanOut:
  "r \<in> set (fraudRings (foldl fanOutStep st es))
     \<Longrightarrow> r \<in> set (fraudRings st)
         \<or> (\<exists>e \<in> set es. ringShape ''fan_out'' (fst e # fanOutReceivers (snd e))
                (fanRisk (fanOutTemporal (snd e)) (length (fanOutReceivers (snd e)))) r)"
proof (induction es arbitrary: st)
  case Nil
  then show ?case by simp
next
  case (Cons e es)
  from Cons.IH [OF Cons.prems [simplified]] show ?case
    by (auto simp: fanOutStep_emit dest: emit_rings_tag)
qed

lemma rings_of_shell:
  "r \<in> set (fraudRings (foldl shellStep st cs))
     \<Longrightarrow> r \<in> set (fraudRings st)
         \<or> (\<exists>c \<in> set cs. ringShape ''shell_network'' c (shellRisk (length c)) r)"
proof (induction cs arbitrary: st)
  case Nil
  then show ?case by simp
next
  case (Cons c cs)
  from Cons.IH [OF Cons.prems [simplified]] show ?case
    by (auto simp: shellStep_emit dest: emit_rings_tag)
qed

lemma cycleNodes_emit_tag [simp]:
  "cycleNodes (emitRing ptype members risk (tagMember p) st) = cycleNodes st"
  by (simp add: emitRing_def Let_def)

lemma cycleNodes_shell [simp]: "cycleNodes (foldl shellStep st cs) = cycleNodes st"
  by (induction cs arbitrary: st) (simp_all add: shellStep_emit)

lemma cycleNodes_fanIn [simp]: "cycleNodes (foldl fanInStep st es) = cycleNodes st"
  by (induction es arbitrary: st) (simp_all add: fanInStep_emit)

lemma cycleNodes_fanOut [simp]: "cycleNodes (foldl fanOutStep st es) = cycleNodes st"
  by (induction es arbitrary: st) (simp_all add: fanOutStep_emit)

text \<open>Every emitted ring is a detected cycle, a fan-in hub with its senders, a fan-out
  hub with its receivers, or a shell chain found with the members of the emitted cycle
  rings excluded; its score is the rounded formula of its kind.\<close>

lemma ring_provenance:
  assumes "r \<in> set (fraudRings (assembleRings g txs ftxs))"
  shows "(\<exists>c \<in> set (detectCycles (buildAdjacencyList ftxs) (getAllAccounts ftxs)).
            ringShape ''cycle'' c (cycleRisk (length c)) r)
       \<or> (\<exists>e \<in> set (fanInAccountsOf g txs).
            ringShape ''fan_in'' (fst e # fanInSenders (snd e))
              (fanRisk (fanInTemporal (snd e)) (length (fanInSenders (snd e)))) r)
       \<or> (\<exists>e \<in> set (fanOutAccountsOf g txs).
            ringShape ''fan_out'' (fst e # fanOutReceivers (snd e))
              (fanRisk (fanOutTemporal (snd e)) (length (fanOutReceivers (snd e)))) r)
       \<or> (\<exists>c \<in> set (detectShellNetworks (buildAdjacencyList ftxs) (computeAccountStats g ftxs)
                         (cycleNodes (assembleRings g txs ftxs))).
            ringShape ''shell_network'' c (shellRisk (length c)) r)"
proof -
  define st1 where "st1 = foldl cycleStep initialState
                      (detectCycles (buildAdjacencyList ftxs) (getAllAccounts ftxs))"
  define st2 where "st2 = foldl fanInStep st1 (fanInAccountsOf g txs)"
  define st3 where "st3 = foldl fanOutStep st2 (fanOutAccountsOf g txs)"
  define chains where "chains = detectShellNetworks (buildAdjacencyList ftxs)
                      (computeAccountStats g ftxs) (cycleNodes st3)"
  have fin: "assembleRings g txs ftxs = foldl shellStep st3 chains"
    by (simp add: assembleRings_def Let_def detectSmurfing_def st1_def st2_def st3_def chains_def)
  have cyc: "cycleNodes (assembleRings g txs ftxs) = cycleNodes st3"
    by (simp add: fin)
  from assms fin have "r \<in> set (fraudRings (foldl shellStep st3 chains))" by simp
  then consider "r \<in> set (fraudRings st3)"
    | "\<exists>c \<in> set chains. ringShape ''shell_network'' c (shellRisk (length c)) r"
    using rings_of_shell by blast
  then show ?thesis
  proof cases
    case 2
    then show ?thesis by (simp add: chains_def cyc)
  next
    case 1
    then have "r \<in> set (fraudRings st2)
        \<or> (\<exists>e \<in> set (fanOutAccountsOf g txs). ringShape ''fan_out'' (fst e # fanOutReceivers (snd e))
              (fanRisk (fanOutTemporal (snd e)) (length (fanOutReceivers (snd e)))) r)"
      unfolding st3_def by (rule rings_of_fanOut)
    moreover have "r \<in> set (fraudRings st2) \<Longrightarrow> r \<in> set (fraudRings st1)
        \<or> (\<exists>e \<in> set (fanInAccountsOf g txs). ringShape ''fan_in'' (fst e # fanInSenders (snd e))
              (fanRisk (fanInTemporal (snd e)) (length (fanInSenders (snd e)))) r)"
      unfolding st2_def by (rule rings_of_fanIn)
    moreover have "r \<in> set (fraudRings st1) \<Longrightarrow>
        (\<exists>c \<in> set (detectCycles (buildAdjacencyList ftxs) (getAllAccounts ftxs)).
            ringShape ''cycle'' c (cycleRisk (length c)) r)"
      unfolding st1_def using rings_of_cycles [of r initialState] by (auto simp: initialState_def)
    ultimately show ?thesis by blast
  qed
qed

section \<open>Scores\<close>

lemma round1_bounds: "0 \<le> x \<Longrightarrow> x \<le> 100 \<Longrightarrow> 0 \<le> round1 x \<and> round1 x \<le> 100"
proof -
  assume x: "0 \<le> x" "x \<le> 100"
  have "0 \<le> \<lfloor>x * 10 + 1 / 2\<rfloor>" using x by (simp add: zero_le_floor)
  moreover have "\<lfloor>x * 10 + 1 / 2\<rfloor> \<le> 1000"
  proof -
    have "x * 10 + 1 / 2 < 1001" using x by simp
    then have "\<lfloor>x * 10 + 1 / 2\<rfloor> < 1001" by (simp add: floor_less_iff)
    then show ?thesis by simp
  qed
  ultimately show ?thesis
    by (simp add: round1_def mathRound_def)
qed

lemma patternScore_nonneg: "0 \<le> patternScore ps cc tf"
proof -
  have "- 1 \<le> min (int cc - 1) 3" by simp
  then have "(-1 :: real) \<le> real_of_int (min (int cc - 1) 3)"
    by (metis of_int_le_iff of_int_minus of_int_1)
  then have "0 \<le> 35 + real_of_int (min (int cc - 1) 3) * 10" by simp
  then show ?thesis
    by (simp add: patternScore_def Let_def)
qed

lemma flowBonus_nonneg: "0 \<le> flowBonus a st"
  by (simp add: flowBonus_spec split: option.splits)

lemma suspicion_bounds:
  "0 \<le> calculateSuspicionScore a ps st cc hub shell tf
   \<and> calculateSuspicionScore a ps st cc hub shell tf \<le> 100"
  unfolding calculateSuspicionScore_def Let_def
  by (rule round1_bounds) (simp_all add: patternScore_nonneg flowBonus_nonneg)

lemma suspicious_scores_bounded:
  "s \<in> set (buildSuspiciousAccounts fi fo stats st) \<Longrightarrow> 0 \<le> suspicion_score s \<and> suspicion_score s \<le> 100"
  by (auto simp: buildSuspiciousAccounts_def suspiciousEntry_def Let_def suspicion_bounds
           split: option.splits if_splits)

lemma analyze_suspicious_bounded:
  "s \<in> set (suspicious_accounts (analyzeTransactions g txs))
     \<Longrightarrow> 0 \<le> suspicion_score s \<and> suspicion_score s \<le> 100"
  by (auto simp: analyze_suspicious dest: suspicious_scores_bounded split: if_splits)

lemma buildNode_score_bounded:
  assumes "\<And>s. s \<in> set sus \<Longrightarrow> 0 \<le> suspicion_score s \<and> suspicion_score s \<le> 100"
  shows "0 \<le> node_suspicion_score (buildNode legit stats st sus a)
       \<and> node_suspicion_score (buildNode legit stats st sus a) \<le> 100"
proof (cases "find (\<lambda>s. account_id s = a) sus")
  case None
  then show ?thesis by (simp add: buildNode_def Let_def)
next
  case (Some s)
  then have "s \<in> set sus" by (auto simp: find_Some_iff)
  with assms Some show ?thesis by (simp add: buildNode_def Let_def)
qed

lemma analyze_node_scores_bounded:
  "n \<in> set (nodes (analyzeTransactions g txs))
     \<Longrightarrow> 0 \<le> node_suspicion_score n \<and> node_suspicion_score n \<le> 100"
  using buildNode_score_bounded [OF analyze_suspicious_bounded]
  by (auto simp: analyze_nodes emptyNode_def split: if_splits)

lemma ring_risk:
  assumes "r \<in> set (fraudRings (assembleRings g txs ftxs))"
  shows "risk_score r = round1 (min (riskFormula g txs r) 100)
       \<and> pattern_type r \<in> set [''cycle'', ''fan_in'', ''fan_out'', ''shell_network'']"
  using ring_provenance [OF assms]
proof (elim disjE bexE)
  fix c assume "ringShape ''cycle'' c (cycleRisk (length c)) r"
  then show ?thesis
    by (simp add: ringShape_def riskFormula_def cycleRisk_def Let_def mult.commute)
next
  fix e assume e: "e \<in> set (fanInAccountsOf g txs)"
    and "ringShape ''fan_in'' (fst e # fanInSenders (snd e))
           (fanRisk (fanInTemporal (snd e)) (length (fanInSenders (snd e)))) r"
  then show ?thesis
    using fanIn_entry [OF e]
    by (simp add: ringShape_def riskFormula_def fanRisk_def Let_def length_newSet)
next
  fix e assume e: "e \<in> set (fanOutAccountsOf g txs)"
    and "ringShape ''fan_out'' (fst e # fanOutReceivers (snd e))
           (fanRisk (fanOutTemporal (snd e)) (length (fanOutReceivers (snd e)))) r"
  then show ?thesis
    using fanOut_entry [OF e]
    by (simp add: ringShape_def riskFormula_def fanRisk_def Let_def length_newSet)
next
  fix c assume "ringShape ''shell_network'' c (shellRisk (length c)) r"
  then show ?thesis
    by (simp add: ringShape_def riskFormula_def shellRisk_def Let_def mult.commute)
qed

lemma riskFormula_nonneg: "0 \<le> riskFormula g txs r"
  by (simp add: riskFormula_def Let_def)

text \<open>
  Claim C7. Every emitted ring has one of the four pattern types and its risk score is
  the formula of its type, capped at 100 and rounded to one decimal: 70 + 5 per member
  for a cycle; for a fan-in (fan-out) ring 60, plus 25 if the temporal flag of the hub
  is set and 10 otherwise, plus 0.5 per distinct sender (receiver) of the hub in the
  unfiltered batch; 50 + 8 per member for a shell chain. Every risk score, every
  suspicion score of a suspicious account and every suspicion score of a node lies
  between 0 and 100.
\<close>

theorem risk_and_suspicion_scores:
  "(\<forall>r \<in> set (fraud_rings (analyzeTransactions g txs)).
      risk_score r = round1 (min (riskFormula g txs r) 100)
      \<and> pattern_type r \<in> set [''cycle'', ''fan_in'', ''fan_out'', ''shell_network'']
      \<and> 0 \<le> risk_score r \<and> risk_score r \<le> 100)
   \<and> (\<forall>s \<in> set (suspicious_accounts (analyzeTransactions g txs)).
        0 \<le> suspicion_score s \<and> suspicion_score s \<le> 100)
   \<and> (\<forall>n \<in> set (nodes (analyzeTransactions g txs)).
        0 \<le> node_suspicion_score n \<and> node_suspicion_score n \<le> 100)"
proof (intro conjI ballI)
  fix r assume "r \<in> set (fraud_rings (analyzeTransactions g txs))"
  then have r: "r \<in> set (fraudRings (assembleRings g txs (filteredOf txs)))"
    by (simp add: analyze_fraud_rings split: if_splits)
  from ring_risk [OF r]
  show rs: "risk_score r = round1 (min (riskFormula g txs r) 100)"
    and "pattern_type r \<in> set [''cycle'', ''fan_in'', ''fan_out'', ''shell_network'']"
    by blast+
  have "0 \<le> round1 (min (riskFormula g txs r) 100) \<and> round1 (min (riskFormula g txs r) 100) \<le> 100"
    by (rule round1_bounds) (simp_all add: riskFormula_nonneg)
  with rs show "0 \<le> risk_score r" and "risk_score r \<le> 100" by simp_all
next
  fix s assume "s \<in> set (suspicious_accounts (analyzeTransactions g txs))"
  from analyze_suspicious_bounded [OF this]
  show "0 \<le> suspicion_score s" and "suspicion_score s \<le> 100" by simp_all
next
  fix n assume "n \<in> set (nodes (analyzeTransactions g txs))"
  from analyze_node_scores_bounded [OF this]
  show "0 \<le> node_suspicion_score n" and "node_suspicion_score n \<le> 100" by simp_all
qed

section \<open>The pure 3-cycle evaluated\<close>

lemma pureCycle_rings:
  "map (\<lambda>r. (ring_id r, pattern_type r, member_accounts r, risk_score r))
     (fraud_rings (analyzeTransactions (\<lambda>_. None) pureCycle))
   = [(''RING_001'', ''cycle'', [''A'', ''B'', ''C''], 85)]"
  by (simp add: pureCycle_def mkTx_def engine_eval cong: let_weak_cong)

lemma pureCycle_suspicious:
  "map account_id (suspicious_accounts (analyzeTransactions (\<lambda>_. None) pureCycle)) = [''A'', ''B'', ''C'']"
  by (simp add: pureCycle_def mkTx_def engine_eval cong: let_weak_cong)

theorem risk_and_suspicion_scores_witness:
  "hd (fraud_rings (analyzeTransactions (\<lambda>_. None) pureCycle))
      \<in> set (fraud_rings (analyzeTransactions (\<lambda>_. None) pureCycle))
   \<and> risk_score (hd (fraud_rings (analyzeTransactions (\<lambda>_. None) pureCycle))) = 85
   \<and> round1 (min (riskFormula (\<lambda>_. None) pureCycle
                    (hd (fraud_rings (analyzeTransactions (\<lambda>_. None) pureCycle)))) 100) = 85
   \<and> hd (suspicious_accounts (analyzeTransactions (\<lambda>_. None) pureCycle))
      \<in> set (suspicious_accounts (analyzeTransactions (\<lambda>_. None) pureCycle))
   \<and> suspicion_score (hd (suspicious_accounts (analyzeTransactions (\<lambda>_. None) pureCycle))) \<le> 100
   \<and> hd (nodes (analyzeTransactions (\<lambda>_. None) pureCycle))
      \<in> set (nodes (analyzeTransactions (\<lambda>_. None) pureCycle))
   \<and> node_suspicion_score (hd (nodes (analyzeTransactions (\<lambda>_. None) pureCycle))) \<le> 100"
proof -
  let ?A = "analyzeTransactions (\<lambda>_. None) pureCycle"
  have r: "fraud_rings ?A \<noteq> []" and v: "risk_score (hd (fraud_rings ?A)) = 85"
    using pureCycle_rings by (auto simp: hd_map [symmetric] simp del: hd_map)
  have s: "suspicious_accounts ?A \<noteq> []"
    using pureCycle_suspicious by auto
  have "''A'' \<in> set (getAllAccounts pureCycle)"
    by (simp add: set_getAllAccounts pureCycle_def mkTx_def)
  then have n: "nodes ?A \<noteq> []"
    using node_ids [of "\<lambda>_. None" pureCycle] by auto
  from r s n have "hd (fraud_rings ?A) \<in> set (fraud_rings ?A)"
    "hd (suspicious_accounts ?A) \<in> set (suspicious_accounts ?A)"
    "hd (nodes ?A) \<in> set (nodes ?A)"
    by simp_all
  with v show ?thesis
    using risk_and_suspicion_scores [of "\<lambda>_. None" pureCycle] by auto
qed

section \<open>The adjacency index in closed form\<close>

lemma groupBy_Nil [simp]: "groupBy key [] = []"
  by (simp add: groupBy_def)

lemma keys_groupBy: "fst ` set (groupBy key txs) = key ` set txs"
  by (induction txs rule: rev_induct) (auto simp: groupBy_snoc groupPush_def)

lemma groupBy_filter_snoc:
  "groupBy key (filter P (txs @ [tx])) =
     (if P tx then groupPush key (groupBy key (filter P txs)) tx else groupBy key (filter P txs))"
  by (simp add: groupBy_snoc)

lemma buildAdjacencyList_snoc:
  "buildAdjacencyList (txs @ [tx]) = adjStep (buildAdjacencyList txs) tx"
  by (simp add: buildAdjacencyList_def)

lemma mapGet_adjStep:
  "mapGet (adjStep adj tx) x =
     (if x = sender_id tx
      then Some (groupPush receiver_id (case mapGet adj x of None \<Rightarrow> [] | Some m \<Rightarrow> m) tx)
      else mapGet adj x)"
  by (simp add: adjStep_def Let_def mapGet_touch groupPush_def)

lemma mapGet_adjacency:
  "mapGet (buildAdjacencyList txs) s =
     (if s \<in> sender_id ` set txs
      then Some (groupBy receiver_id (filter (\<lambda>t. sender_id t = s) txs)) else None)"
proof (induction txs arbitrary: s rule: rev_induct)
  case Nil
  then show ?case by (simp add: buildAdjacencyList_def mapGet_def)
next
  case (snoc tx txs)
  have none: "s \<notin> sender_id ` set txs \<Longrightarrow> filter (\<lambda>t. sender_id t = s) txs = []" for s
    by (metis (mono_tags, lifting) filter_False image_eqI)
  show ?case
    by (auto simp: buildAdjacencyList_snoc mapGet_adjStep snoc groupBy_snoc none)
qed

lemma keys_adjacency: "fst ` set (buildAdjacencyList txs) = sender_id ` set txs"
proof -
  have "x \<in> fst ` set (buildAdjacencyList txs) \<longleftrightarrow> x \<in> sender_id ` set txs" for x
    using mapGet_adjacency [of txs x] mapHas_mapGet [of x "buildAdjacencyList txs"]
    by (auto simp: mapHas_def split: if_splits)
  then show ?thesis by blast
qed

lemma neighbors_adjacency:
  "neighbors (buildAdjacencyList txs) s
     = map fst (groupBy receiver_id (filter (\<lambda>t. sender_id t = s) txs))"
proof (cases "s \<in> sender_id ` set txs")
  case True
  then show ?thesis by (simp add: neighbors_def mapGet_adjacency)
next
  case False
  then have "filter (\<lambda>t. sender_id t = s) txs = []"
    by (metis (mono_tags, lifting) filter_False image_eqI)
  with False show ?thesis by (simp add: neighbors_def mapGet_adjacency)
qed

lemma set_neighbors:
  "set (neighbors (buildAdjacencyList txs) s) = receiver_id ` {t \<in> set txs. sender_id t = s}"
  using keys_groupBy [of receiver_id "filter (\<lambda>t. sender_id t = s) txs"]
  by (simp add: neighbors_adjacency)

lemma edgeTxs_adjacency:
  "edgeTxs (buildAdjacencyList txs) s r
     = filter (\<lambda>t. sender_id t = s \<and> receiver_id t = r) txs"
proof -
  let ?l = "filter (\<lambda>t. sender_id t = s) txs"
  have both: "filter (\<lambda>t. receiver_id t = r) ?l
             = filter (\<lambda>t. sender_id t = s \<and> receiver_id t = r) txs"
    by (simp add: conj_commute)
  have inner: "(case mapGet (groupBy receiver_id ?l) r of None \<Rightarrow> [] | Some l \<Rightarrow> l)
             = filter (\<lambda>t. receiver_id t = r) ?l"
  proof (cases "r \<in> receiver_id ` set ?l")
    case True
    then show ?thesis by (simp add: mapGet_groupBy)
  next
    case False
    then have "filter (\<lambda>t. receiver_id t = r) ?l = []"
      by (metis (mono_tags, lifting) filter_False image_eqI)
    with False show ?thesis by (simp add: mapGet_groupBy)
  qed
  show ?thesis
  proof (cases "s \<in> sender_id ` set txs")
    case True
    then show ?thesis
      using inner both by (simp add: edgeTxs_def mapGet_adjacency)
  next
    case False
    then have "?l = []"
      by (metis (mono_tags, lifting) filter_False image_eqI)
    with False both show ?thesis
      by (simp add: edgeTxs_def mapGet_adjacency)
  qed
qed

section \<open>Statistics in closed form, member lists in order\<close>

lemma newSet_snoc: "newSet (xs @ [x]) = setAdd x (newSet xs)"
  by (simp add: newSet_def)

lemma senders_list_closed:
  "senders (statOf (computeAccountStats g txs) a)
     = newSet (map sender_id (filter (\<lambda>t. receiver_id t = a) txs))"
  by (induction txs rule: rev_induct)
     (auto simp: computeAccountStats_snoc statOf_statsStep statsSend_def statsReceive_def
        emptyStats_def newSet_snoc newSet_def)

lemma receivers_list_closed:
  "receivers (statOf (computeAccountStats g txs) a)
     = newSet (map receiver_id (filter (\<lambda>t. sender_id t = a) txs))"
  by (induction txs rule: rev_induct)
     (auto simp: computeAccountStats_snoc statOf_statsStep statsSend_def statsReceive_def
        emptyStats_def newSet_snoc newSet_def)

lemma keys_statsStep: "map fst (statsStep g stats tx)
    = setAdd (receiver_id tx) (setAdd (sender_id tx) (map fst stats))"
  by (auto simp: statsStep_def Let_def mapInit_def mapHas_def setAdd_def)

lemma keys_computeAccountStats: "map fst (computeAccountStats g txs) = getAllAccounts txs"
  by (induction txs rule: rev_induct)
     (simp_all add: computeAccountStats_snoc getAllAccounts_snoc keys_statsStep getAllAccounts_def)

lemma statsCore_closed:
  "statsCore (statOf (computeAccountStats g txs) a) =
     (sum_list (map amount (filter (\<lambda>t. sender_id t = a) txs)),
      sum_list (map amount (filter (\<lambda>t. receiver_id t = a) txs)),
      length (filter (\<lambda>t. sender_id t = a) txs),
      length (filter (\<lambda>t. receiver_id t = a) txs),
      newSet (map sender_id (filter (\<lambda>t. receiver_id t = a) txs)),
      newSet (map receiver_id (filter (\<lambda>t. sender_id t = a) txs)),
      length (filter (\<lambda>t. sender_id t = a) txs) + length (filter (\<lambda>t. receiver_id t = a) txs))"
  by (simp add: statsCore_def totalSent_closed totalReceived_closed sendCount_closed
        receiveCount_closed senders_list_closed receivers_list_closed totalTransactions_closed)

section \<open>Unparseable timestamps and the temporal window\<close>

lemma inWindow_None [simp]: "inWindow None ti = False" "inWindow ts None = False"
  by (simp_all add: inWindow_def Let_def split: option.splits)

lemma finite_part_filter:
  "concat (map (\<lambda>t. case t of None \<Rightarrow> [] | Some v \<Rightarrow> [v])
             (map f (filter (\<lambda>t. f t \<noteq> None) txs)))
     = concat (map (\<lambda>t. case t of None \<Rightarrow> [] | Some v \<Rightarrow> [v]) (map f txs))"
  by (induction txs) auto

lemma nan_part_filter:
  "filter (\<lambda>t. t = None) (map f (filter (\<lambda>t. f t \<noteq> None) txs)) = []"
  by (induction txs) auto

lemma window_filter:
  "filter (\<lambda>t. inWindow (f t) ti) (filter (\<lambda>t. f t \<noteq> None) txs) = filter (\<lambda>t. inWindow (f t) ti) txs"
proof -
  have "(f t \<noteq> None \<and> inWindow (f t) ti) = inWindow (f t) ti" for t
    by (cases "f t") simp_all
  then show ?thesis by simp
qed

lemma window_scan_ignores_nan:
  fixes f :: "Transaction \<Rightarrow> int option"
  assumes "0 < n"
  shows "list_ex (\<lambda>ti. n \<le> length (newSet (map party
             (filter (\<lambda>t. inWindow (f t) ti) (filter (\<lambda>t. f t \<noteq> None) txs)))))
           (sortNumbers (map f (filter (\<lambda>t. f t \<noteq> None) txs)))
       = list_ex (\<lambda>ti. n \<le> length (newSet (map party (filter (\<lambda>t. inWindow (f t) ti) txs))))
           (sortNumbers (map f txs))"
proof -
  define P where "P = (\<lambda>ti. n \<le> length (newSet (map party (filter (\<lambda>t. inWindow (f t) ti) txs))))"
  define fin where "fin = map Some (sort (concat (map (\<lambda>t. case t of None \<Rightarrow> [] | Some v \<Rightarrow> [v])
                              (map f txs))))"
  have nan: "\<not> list_ex P (filter (\<lambda>t. t = None) (map f txs))"
    using assms by (auto simp: list_ex_iff P_def newSet_def)
  have split: "sortNumbers (map f txs) = fin @ filter (\<lambda>t. t = None) (map f txs)"
    by (simp only: sortNumbers_def fin_def)
  have "list_ex P (xs @ ys) = (list_ex P xs \<or> list_ex P ys)" for xs ys
    by (induction xs) simp_all
  with nan have "list_ex P (sortNumbers (map f txs)) = list_ex P fin"
    by (simp only: split simp_thms)
  moreover have "sortNumbers (map f (filter (\<lambda>t. f t \<noteq> None) txs)) = fin"
    by (simp only: sortNumbers_def finite_part_filter nan_part_filter append_Nil2 fin_def)
  ultimately show ?thesis
    by (simp only: window_filter P_def)
qed

lemma temporalCluster_ignores_unparseable:
  "temporalCluster g party txs
     = temporalCluster g party (filter (\<lambda>t. g (timestamp t) \<noteq> None) txs)"
  unfolding temporalCluster_def Let_def
  using window_scan_ignores_nan [of MIN_CONNECTIONS party "\<lambda>t. g (timestamp t)" txs]
  by (simp add: MIN_CONNECTIONS_def)

lemma fanIn_hubs:
  "map (\<lambda>e. (fst e, fanInSenders (snd e))) (fanInAccountsOf g txs) = hubsOf receiver_id sender_id txs"
  unfolding fanInAccountsOf_def hubsOf_def Let_def map_concat
  by (rule arg_cong [where f = concat]) (auto simp: comp_def)

lemma fanOut_hubs:
  "map (\<lambda>e. (fst e, fanOutReceivers (snd e))) (fanOutAccountsOf g txs) = hubsOf sender_id receiver_id txs"
  unfolding fanOutAccountsOf_def hubsOf_def Let_def map_concat
  by (rule arg_cong [where f = concat]) (auto simp: comp_def)

lemma fanIn_flags:
  "map (\<lambda>e. fanInTemporal (snd e)) (fanInAccountsOf g txs)
     = map (\<lambda>e. temporalCluster g sender_id
                  (filter (\<lambda>t. g (timestamp t) \<noteq> None) (filter (\<lambda>t. receiver_id t = fst e) txs)))
         (fanInAccountsOf g txs)"
proof (rule map_cong [OF refl])
  fix e assume "e \<in> set (fanInAccountsOf g txs)"
  from fanIn_entry [OF this]
  have "fanInTemporal (snd e) = temporalCluster g sender_id (filter (\<lambda>t. receiver_id t = fst e) txs)"
    by simp
  also note temporalCluster_ignores_unparseable
  finally show "fanInTemporal (snd e) = temporalCluster g sender_id
      (filter (\<lambda>t. g (timestamp t) \<noteq> None) (filter (\<lambda>t. receiver_id t = fst e) txs))" .
qed

lemma fanOut_flags:
  "map (\<lambda>e. fanOutTemporal (snd e)) (fanOutAccountsOf g txs)
     = map (\<lambda>e. temporalCluster g receiver_id
                  (filter (\<lambda>t. g (timestamp t) \<noteq> None) (filter (\<lambda>t. sender_id t = fst e) txs)))
         (fanOutAccountsOf g txs)"
proof (rule map_cong [OF refl])
  fix e assume "e \<in> set (fanOutAccountsOf g txs)"
  from fanOut_entry [OF this]
  have "fanOutTemporal (snd e) = temporalCluster g receiver_id (filter (\<lambda>t. sender_id t = fst e) txs)"
    by simp
  also note temporalCluster_ignores_unparseable
  finally show "fanOutTemporal (snd e) = temporalCluster g receiver_id
      (filter (\<lambda>t. g (timestamp t) \<noteq> None) (filter (\<lambda>t. sender_id t = fst e) txs))" .
qed

text \<open>
  Claim C9. Whatever the timestamps parse to, every transaction is stored in the
  adjacency index under its sender and receiver, enters the sums, the counts and the
  counterparty sets of the statistics of both endpoints, and is counted among the
  counterparties that make an account a fan-in or fan-out hub: these are given in closed
  form over all transactions, without reference to the parse. The temporal flag of a
  group of transactions is the flag of its transactions with a parseable timestamp: a
  transaction whose timestamp does not parse never helps to fill a 72-hour window, and
  so it is for the flag of every hub.
\<close>

theorem unparseable_timestamps:
  "edgeTxs (buildAdjacencyList txs) s r = filter (\<lambda>t. sender_id t = s \<and> receiver_id t = r) txs
   \<and> map fst (computeAccountStats g txs) = getAllAccounts txs
   \<and> statsCore (statOf (computeAccountStats g txs) a) =
       (sum_list (map amount (filter (\<lambda>t. sender_id t = a) txs)),
        sum_list (map amount (filter (\<lambda>t. receiver_id t = a) txs)),
        length (filter (\<lambda>t. sender_id t = a) txs),
        length (filter (\<lambda>t. receiver_id t = a) txs),
        newSet (map sender_id (filter (\<lambda>t. receiver_id t = a) txs)),
        newSet (map receiver_id (filter (\<lambda>t. sender_id t = a) txs)),
        length (filter (\<lambda>t. sender_id t = a) txs) + length (filter (\<lambda>t. receiver_id t = a) txs))
   \<and> map (\<lambda>e. (fst e, fanInSenders (snd e))) (fst (detectSmurfing g txs))
       = hubsOf receiver_id sender_id txs
   \<and> map (\<lambda>e. (fst e, fanOutReceivers (snd e))) (snd (detectSmurfing g txs))
       = hubsOf sender_id receiver_id txs
   \<and> temporalCluster g party txs
       = temporalCluster g party (filter (\<lambda>t. g (timestamp t) \<noteq> None) txs)
   \<and> map (\<lambda>e. fanInTemporal (snd e)) (fst (detectSmurfing g txs))
       = map (\<lambda>e. temporalCluster g sender_id
                    (filter (\<lambda>t. g (timestamp t) \<noteq> None) (filter (\<lambda>t. receiver_id t = fst e) txs)))
           (fst (detectSmurfing g txs))
   \<and> map (\<lambda>e. fanOutTemporal (snd e)) (snd (detectSmurfing g txs))
       = map (\<lambda>e. temporalCluster g receiver_id
                    (filter (\<lambda>t. g (timestamp t) \<noteq> None) (filter (\<lambda>t. sender_id t = fst e) txs)))
           (snd (detectSmurfing g txs))"
  unfolding detectSmurfing_def fst_conv snd_conv
  using edgeTxs_adjacency [of txs s r] keys_computeAccountStats [of g txs]
    statsCore_closed [of g txs a] fanIn_hubs [of g txs] fanOut_hubs [of g txs]
    temporalCluster_ignores_unparseable [of g party txs] fanIn_flags [of g txs] fanOut_flags [of g txs]
  by (intro conjI)

section \<open>Ring deduplication\<close>

text \<open>
  Claim C6 says that no two emitted rings agree in pattern type and member set. In the
  batch \<open>selfTransfers\<close> the hubs \<open>A\<close> and \<open>B\<close> are each paid by the same ten
  accounts, themselves included. Both fan-in rings are emitted, \<open>RING_001\<close> and
  \<open>RING_002\<close>: the member list of a fan ring is the hub followed by its
  counterparties, it holds the hub twice when the hub paid itself, the two sorted lists
  differ, and so do the deduplication keys, although the member sets are equal.
\<close>

theorem same_member_set_twice:
  "map (\<lambda>r. (ring_id r, pattern_type r, member_accounts r))
        (fraud_rings (analyzeTransactions getTime selfTransfers))
      = [(''RING_001'', ''fan_in'',
          [''A'', ''A'', ''B'', ''C1'', ''C2'', ''C3'', ''C4'', ''C5'', ''C6'', ''C7'', ''C8'']),
         (''RING_002'', ''fan_in'',
          [''B'', ''A'', ''B'', ''C1'', ''C2'', ''C3'', ''C4'', ''C5'', ''C6'', ''C7'', ''C8''])]
   \<and> set [''A'', ''A'', ''B'', ''C1'', ''C2'', ''C3'', ''C4'', ''C5'', ''C6'', ''C7'', ''C8'']
     = set [''B'', ''A'', ''B'', ''C1'', ''C2'', ''C3'', ''C4'', ''C5'', ''C6'', ''C7'', ''C8'']"
proof
  show "map (\<lambda>r. (ring_id r, pattern_type r, member_accounts r))
        (fraud_rings (analyzeTransactions getTime selfTransfers))
      = [(''RING_001'', ''fan_in'',
          [''A'', ''A'', ''B'', ''C1'', ''C2'', ''C3'', ''C4'', ''C5'', ''C6'', ''C7'', ''C8'']),
         (''RING_002'', ''fan_in'',
          [''B'', ''A'', ''B'', ''C1'', ''C2'', ''C3'', ''C4'', ''C5'', ''C6'', ''C7'', ''C8''])]"
    by (simp add: selfTransfers_def mkTx_def engine_eval cong: let_weak_cong)
  show "set [''A'', ''A'', ''B'', ''C1'', ''C2'', ''C3'', ''C4'', ''C5'', ''C6'', ''C7'', ''C8'']
     = set [''B'', ''A'', ''B'', ''C1'', ''C2'', ''C3'', ''C4'', ''C5'', ''C6'', ''C7'', ''C8'']"
    by auto
qed

section \<open>The cycle search\<close>

lemma successively_snoc:
  "successively P (xs @ [x]) = (successively P xs \<and> (xs = [] \<or> P (last xs) x))"
  by (auto simp: successively_append_iff)

lemma in_concat_map: "p \<in> set (concat (map f xs)) \<longleftrightarrow> (\<exists>x \<in> set xs. p \<in> set (f x))"
  by auto

lemma dfsCycle_mem:
  "p \<in> set (dfsCycle adj start path visited current depth) \<longleftrightarrow>
     \<not> 5 < depth \<and>
     (\<exists>nb \<in> set (neighbors adj current).
        p \<in> set (if nb = start \<and> 3 \<le> depth then [path @ [current]]
                   else if nb \<notin> set (setAdd current visited) \<and> depth < 5
                        then dfsCycle adj start (path @ [current]) (setAdd current visited) nb (depth + 1)
                        else []))"
proof -
  have eq: "dfsCycle adj start path visited current depth =
      (if 5 < depth then []
       else concat (map (\<lambda>nb. if nb = start \<and> 3 \<le> depth then [path @ [current]]
                   else if nb \<notin> set (setAdd current visited) \<and> depth < 5
                        then dfsCycle adj start (path @ [current]) (setAdd current visited) nb (depth + 1)
                        else []) (neighbors adj current)))"
    by (simp only: dfsCycle.simps [of adj start path visited current depth] Let_def)
  show ?thesis
  proof (cases "5 < depth")
    case True
    have "dfsCycle adj start path visited current depth = []"
      using True by (simp only: eq if_True)
    with True show ?thesis by simp
  next
    case False
    define F where "F = (\<lambda>nb. if nb = start \<and> 3 \<le> depth then [path @ [current]]
                   else if nb \<notin> set (setAdd current visited) \<and> depth < 5
                        then dfsCycle adj start (path @ [current]) (setAdd current visited) nb (depth + 1)
                        else [])"
    have "dfsCycle adj start path visited current depth = concat (map F (neighbors adj current))"
      using False unfolding F_def by (simp only: eq if_False)
    then have "p \<in> set (dfsCycle adj start path visited current depth)
        \<longleftrightarrow> (\<exists>nb \<in> set (neighbors adj current). p \<in> set (F nb))"
      by (simp only: in_concat_map)
    with False show ?thesis
      unfolding F_def by blast
  qed
qed

lemma dfsCycle_sound:
  assumes "p \<in> set (dfsCycle adj start path visited current depth)"
    and "set visited = set path" "distinct (path @ [current])" "depth = Suc (length path)"
    and "successively (edge adj) (path @ [current])"
  shows "\<exists>q. p = path @ current # q \<and> distinct p \<and> 3 \<le> length p \<and> length p \<le> 5
            \<and> successively (edge adj) p \<and> edge adj (last p) start"
  using assms
proof (induction adj start path visited current depth arbitrary: p rule: dfsCycle.induct)
  case (1 adj start path visited current depth)
  from "1.prems"(1) have le: "\<not> 5 < depth"
    unfolding dfsCycle_mem [of p adj start path visited current depth] by blast
  from "1.prems"(1) obtain nb where nb: "nb \<in> set (neighbors adj current)"
    and p: "p \<in> set (if nb = start \<and> 3 \<le> depth then [path @ [current]]
                     else if nb \<notin> set (setAdd current visited) \<and> depth < 5
                          then dfsCycle adj start (path @ [current]) (setAdd current visited) nb (depth + 1)
                          else [])"
    unfolding dfsCycle_mem [of p adj start path visited current depth] by blast
  show ?case
  proof (cases "nb = start \<and> 3 \<le> depth")
    case True
    with p have "p = path @ [current]" by simp
    moreover have "edge adj current start" using True nb by (simp add: edge_def)
    ultimately show ?thesis
      using "1.prems" True le by auto
  next
    case False
    with p have fresh: "nb \<notin> set (setAdd current visited)" and lt: "depth < 5"
      and rec: "p \<in> set (dfsCycle adj start (path @ [current]) (setAdd current visited) nb (depth + 1))"
      by (auto split: if_splits)
    have "\<exists>q. p = (path @ [current]) @ nb # q \<and> distinct p \<and> 3 \<le> length p \<and> length p \<le> 5
            \<and> successively (edge adj) p \<and> edge adj (last p) start"
    proof (rule "1.IH" [OF le refl refl nb False _ rec])
      show "nb \<notin> set (setAdd current visited) \<and> depth < 5" using fresh lt by simp
      show "set (setAdd current visited) = set (path @ [current])"
        using "1.prems"(2) by simp
      show "distinct ((path @ [current]) @ [nb])"
        using "1.prems"(2,3) fresh by auto
      show "depth + 1 = Suc (length (path @ [current]))"
        using "1.prems"(4) by simp
      show "successively (edge adj) ((path @ [current]) @ [nb])"
        using "1.prems"(5) nb unfolding successively_snoc [of _ "path @ [current]" nb]
        by (simp add: edge_def)
    qed
    then show ?thesis by auto
  qed
qed

lemma dfsCycle_start_sound:
  assumes "p \<in> set (dfsCycle adj start [] [] start 1)"
  shows "simpleCycle adj p \<and> hd p = start"
proof -
  from dfsCycle_sound [OF assms] obtain q where
    "p = start # q" "distinct p" "3 \<le> length p" "length p \<le> 5"
    "successively (edge adj) p" "edge adj (last p) start"
    by auto
  then show ?thesis by (simp add: simpleCycle_def)
qed

lemma allCycles_sound:
  "p \<in> set (allCycles adj accs) \<Longrightarrow> simpleCycle adj p \<and> hd p \<in> set accs"
proof -
  assume "p \<in> set (allCycles adj accs)"
  then obtain start where "start \<in> set accs" "p \<in> set (dfsCycle adj start [] [] start 1)"
    unfolding allCycles_def in_concat_map by blast
  with dfsCycle_start_sound [of p adj start] show ?thesis by simp
qed

lemma dfsCycle_complete:
  assumes "simpleCycle adj c" "c = path @ current # rest" "hd c = start"
    and "set visited = set path" "depth = Suc (length path)"
  shows "c \<in> set (dfsCycle adj start path visited current depth)"
  using assms
proof (induction rest arbitrary: path current visited depth)
  case Nil
  then have c: "c = path @ [current]" by simp
  from Nil.prems(1) have len: "3 \<le> length c" "length c \<le> 5" and closing: "edge adj (last c) (hd c)"
    by (simp_all add: simpleCycle_def)
  have d: "depth = length c" using c Nil.prems(5) by simp
  have "start \<in> set (neighbors adj current)"
    using closing c Nil.prems(3) by (simp add: edge_def)
  then show ?case
    unfolding dfsCycle_mem using len d c by auto
next
  case (Cons n rest)
  from Cons.prems(1) have dist: "distinct c" and len: "length c \<le> 5"
    and succ: "successively (edge adj) c"
    by (simp_all add: simpleCycle_def)
  have c: "c = path @ current # n # rest" by (rule Cons.prems(2))
  have nb: "n \<in> set (neighbors adj current)"
    using succ unfolding c by (simp add: successively_append_iff edge_def)
  have "n \<noteq> start"
  proof (cases path)
    case Nil
    then show ?thesis using dist c Cons.prems(3) by auto
  next
    case (Cons a as)
    then have "start \<in> set path" using c Cons.prems(3) by auto
    then show ?thesis using dist c by auto
  qed
  moreover have fresh: "n \<notin> set (setAdd current visited)"
    using dist c Cons.prems(4) by auto
  moreover have lt: "depth < 5"
    using len c Cons.prems(5) by simp
  moreover have "c \<in> set (dfsCycle adj start (path @ [current]) (setAdd current visited) n (depth + 1))"
  proof (rule Cons.IH [OF Cons.prems(1) _ Cons.prems(3)])
    show "c = (path @ [current]) @ n # rest" using c by simp
    show "set (setAdd current visited) = set (path @ [current])" using Cons.prems(4) by simp
    show "depth + 1 = Suc (length (path @ [current]))" using Cons.prems(5) by simp
  qed
  ultimately show ?case
    unfolding dfsCycle_mem [of c adj start path visited current depth] using nb by auto
qed

lemma allCycles_complete:
  assumes "simpleCycle adj c" "hd c \<in> set accs"
  shows "c \<in> set (allCycles adj accs)"
proof -
  from assms(1) have "c \<noteq> []" by (auto simp: simpleCycle_def)
  then obtain rest where c: "c = [] @ hd c # rest" by (cases c) auto
  have "c \<in> set (dfsCycle adj (hd c) [] [] (hd c) 1)"
    by (rule dfsCycle_complete [OF assms(1) c refl]) simp_all
  with assms(2) show ?thesis
    unfolding allCycles_def in_concat_map by blast
qed

text \<open>The search from all accounts finds exactly the simple cycles of length 3 to 5 that
  start at one of them, each written from its start.\<close>

lemma allCycles_iff:
  "c \<in> set (allCycles adj accs) \<longleftrightarrow> simpleCycle adj c \<and> hd c \<in> set accs"
  using allCycles_sound allCycles_complete by blast

section \<open>Canonical rotation and deduplication of cycles\<close>

lemma minMember_Min: "c \<noteq> [] \<Longrightarrow> minMember c = Min (set c)"
proof -
  assume "c \<noteq> []"
  then obtain x xs where c: "c = x # xs" by (cases c) auto
  have "(\<lambda>a b :: string. if a < b then a else b) = min"
    by (intro ext) (auto simp: min_def)
  then have "minMember c = foldl min x xs"
    by (simp add: minMember_def c)
  also have "\<dots> = fold min xs x"
    by (simp add: foldl_conv_fold min.commute)
  also have "\<dots> = Min (set (x # xs))"
    by (simp only: Min.set_eq_fold)
  finally show ?thesis by (simp add: c)
qed

lemma indexOf_less: "x \<in> set xs \<Longrightarrow> indexOf xs x < length xs"
  unfolding indexOf_def by (induction xs) auto

lemma nth_indexOf: "x \<in> set xs \<Longrightarrow> xs ! indexOf xs x = x"
  unfolding indexOf_def by (induction xs) auto

lemma normalizeCycle_rotate:
  assumes "c \<noteq> []"
  shows "normalizeCycle c = rotate (indexOf c (minMember c)) c"
proof -
  have "minMember c \<in> set c"
    using assms by (simp add: minMember_Min)
  then have "indexOf c (minMember c) < length c"
    by (rule indexOf_less)
  then show ?thesis
    using assms by (simp add: normalizeCycle_def Let_def rotate_drop_take)
qed

lemma hd_normalizeCycle:
  assumes "c \<noteq> []"
  shows "hd (normalizeCycle c) = Min (set c)"
proof -
  have m: "minMember c \<in> set c"
    using assms by (simp add: minMember_Min)
  then have "indexOf c (minMember c) < length c"
    by (rule indexOf_less)
  then have "hd (normalizeCycle c) = c ! indexOf c (minMember c)"
    using assms by (simp add: normalizeCycle_def Let_def hd_append hd_drop_conv_nth)
  with m show ?thesis
    using assms by (simp add: nth_indexOf minMember_Min)
qed

lemma simpleCycle_rotate1:
  assumes "simpleCycle adj c"
  shows "simpleCycle adj (rotate1 c)"
proof -
  from assms obtain x y zs where c: "c = x # y # zs"
    by (cases c; cases "tl c") (auto simp: simpleCycle_def)
  from assms have "distinct c" "3 \<le> length c" "length c \<le> 5"
    and s: "successively (edge adj) c" and e: "edge adj (last c) (hd c)"
    by (simp_all add: simpleCycle_def)
  moreover have "successively (edge adj) (rotate1 c)"
  proof -
    have "successively (edge adj) ((y # zs) @ [x])"
      by (subst successively_snoc) (use s e in \<open>simp add: c\<close>)
    then show ?thesis by (simp add: c)
  qed
  moreover have "edge adj (last (rotate1 c)) (hd (rotate1 c))"
    using s unfolding c by simp
  ultimately show ?thesis
    by (simp add: simpleCycle_def)
qed

lemma simpleCycle_rotate: "simpleCycle adj c \<Longrightarrow> simpleCycle adj (rotate n c)"
  by (induction n) (simp_all add: simpleCycle_rotate1)

lemma simpleCycle_normalize:
  assumes "simpleCycle adj c"
  shows "simpleCycle adj (normalizeCycle c)"
proof -
  from assms have "c \<noteq> []" by (auto simp: simpleCycle_def)
  then show ?thesis
    using assms by (simp add: normalizeCycle_rotate simpleCycle_rotate)
qed

lemma set_normalizeCycle [simp]: "set (normalizeCycle c) = set c"
proof (cases "c = []")
  case True
  then show ?thesis by (simp add: normalizeCycle_def)
next
  case False
  then show ?thesis by (simp add: normalizeCycle_rotate)
qed

lemma dedup_invariant:
  assumes "map (join ''|'') (snd st) = fst st" "distinct (fst st)"
  shows "map (join ''|'') (snd (foldl dedupStep st cs)) = fst (foldl dedupStep st cs)
       \<and> distinct (fst (foldl dedupStep st cs))"
  using assms
proof (induction cs arbitrary: st)
  case Nil
  then show ?case by simp
next
  case (Cons c cs)
  show ?case
    unfolding foldl_Cons
    by (rule Cons.IH) (use Cons.prems in \<open>auto simp: dedupStep_def Let_def setAdd_new\<close>)
qed

lemma dedup_subset:
  "o' \<in> set (snd (foldl dedupStep st cs))
     \<Longrightarrow> o' \<in> set (snd st) \<or> (\<exists>c \<in> set cs. o' = normalizeCycle c)"
proof (induction cs arbitrary: st)
  case Nil
  then show ?case by simp
next
  case (Cons c cs)
  from Cons.IH [OF Cons.prems [unfolded foldl_Cons]] show ?case
    by (auto simp: dedupStep_def Let_def split: if_splits)
qed

lemma dedup_keys_grow:
  "k \<in> set (fst st) \<Longrightarrow> k \<in> set (fst (foldl dedupStep st cs))"
  by (induction cs arbitrary: st) (auto simp: dedupStep_def Let_def)

lemma dedup_covers:
  "c \<in> set cs \<Longrightarrow> join ''|'' (normalizeCycle c) \<in> set (fst (foldl dedupStep st cs))"
proof (induction cs arbitrary: st)
  case Nil
  then show ?case by simp
next
  case (Cons a cs)
  show ?case
  proof (cases "c = a")
    case True
    have "join ''|'' (normalizeCycle a) \<in> set (fst (dedupStep st a))"
      by (simp add: dedupStep_def Let_def)
    then show ?thesis
      using True by (simp add: dedup_keys_grow)
  next
    case False
    with Cons.prems have "c \<in> set cs" by simp
    then show ?thesis by (simp add: Cons.IH)
  qed
qed

text \<open>Every emitted cycle is a simple directed cycle of the graph with 3 to 5 members,
  starts at an account of the list searched, has its smallest member first, and is the
  canonical rotation of a path found by the search. No cycle is emitted twice.\<close>

lemma detectCycles_sound:
  assumes "c \<in> set (detectCycles adj accs)"
  shows "simpleCycle adj c \<and> hd c = Min (set c) \<and> Min (set c) \<in> set c
       \<and> (\<exists>p \<in> set (allCycles adj accs). c = normalizeCycle p \<and> hd p \<in> set accs)"
proof -
  from assms obtain p where p: "p \<in> set (allCycles adj accs)" and c: "c = normalizeCycle p"
    unfolding detectCycles_def Let_def using dedup_subset [of c "([], [])"] by auto
  from allCycles_sound [OF p] have sp: "simpleCycle adj p" and hp: "hd p \<in> set accs" by simp_all
  then have ne: "p \<noteq> []" by (auto simp: simpleCycle_def)
  have "Min (set c) \<in> set c"
    using ne c by (intro Min_in) simp_all
  with sp hp p c ne show ?thesis
    by (auto simp: simpleCycle_normalize hd_normalizeCycle)
qed

lemma detectCycles_distinct: "distinct (detectCycles adj accs)"
proof -
  have "distinct (map (join ''|'') (detectCycles adj accs))"
    unfolding detectCycles_def Let_def
    using dedup_invariant [of "([], [])" "allCycles adj accs"] by simp
  then show ?thesis by (simp add: distinct_map)
qed

section \<open>Cycle detection on account names with a separator character\<close>

text \<open>
  Claim C3 says that the cycle detector emits one canonical cycle for every simple
  directed cycle of length 3 to 5. In the batch \<open>barNames\<close> the 3-cycle
  \<open>a|b \<rightarrow> c \<rightarrow> d \<rightarrow> a|b\<close> and the 4-cycle \<open>a \<rightarrow> b \<rightarrow> c \<rightarrow> d \<rightarrow> a\<close> are both simple
  directed cycles of the graph. Their canonical forms are joined with \<open>|\<close> to the same
  key \<open>a|b|c|d\<close>, and the detector emits the first only: the 4-cycle is in the list of
  found paths and not in the result, and the analysis reports one ring.
\<close>

theorem cycle_lost_by_key_collision:
  "simpleCycle (buildAdjacencyList barNames) [''a|b'', ''c'', ''d'']
   \<and> simpleCycle (buildAdjacencyList barNames) [''a'', ''b'', ''c'', ''d'']
   \<and> [''a'', ''b'', ''c'', ''d'']
        \<in> set (allCycles (buildAdjacencyList barNames) (getAllAccounts barNames))
   \<and> normalizeCycle [''a'', ''b'', ''c'', ''d''] = [''a'', ''b'', ''c'', ''d'']
   \<and> detectCycles (buildAdjacencyList barNames) (getAllAccounts barNames) = [[''a|b'', ''c'', ''d'']]
   \<and> map (\<lambda>r. (ring_id r, pattern_type r, member_accounts r))
         (fraud_rings (analyzeTransactions getTime barNames))
       = [(''RING_001'', ''cycle'', [''a|b'', ''c'', ''d''])]"
proof (intro conjI)
  show "simpleCycle (buildAdjacencyList barNames) [''a|b'', ''c'', ''d'']"
    by (simp add: simpleCycle_def edge_def barNames_def mkTx_def graph_defs container_defs
          cong: let_weak_cong)
  show c4: "simpleCycle (buildAdjacencyList barNames) [''a'', ''b'', ''c'', ''d'']"
    by (simp add: simpleCycle_def edge_def barNames_def mkTx_def graph_defs container_defs
          cong: let_weak_cong)
  have "''a'' \<in> set (getAllAccounts barNames)"
    by (simp add: set_getAllAccounts barNames_def mkTx_def)
  with c4 show "[''a'', ''b'', ''c'', ''d'']
        \<in> set (allCycles (buildAdjacencyList barNames) (getAllAccounts barNames))"
    by (simp add: allCycles_iff)
  show "normalizeCycle [''a'', ''b'', ''c'', ''d''] = [''a'', ''b'', ''c'', ''d'']"
    by (simp add: normalizeCycle_def minMember_def indexOf_def)
  show "detectCycles (buildAdjacencyList barNames) (getAllAccounts barNames) = [[''a|b'', ''c'', ''d'']]"
    by (simp add: barNames_def mkTx_def graph_defs cycle_defs container_defs Let_def
          cong: let_weak_cong)
  show "map (\<lambda>r. (ring_id r, pattern_type r, member_accounts r))
         (fraud_rings (analyzeTransactions getTime barNames))
       = [(''RING_001'', ''cycle'', [''a|b'', ''c'', ''d''])]"
    by (simp add: barNames_def mkTx_def engine_eval cong: let_weak_cong)
qed

section \<open>The shell search\<close>

lemma dfsShell_mem:
  "ch \<in> set (dfsShell adj stats cyc path visited current) \<longleftrightarrow>
     (\<exists>nb \<in> set (neighbors adj current).
        nb \<notin> set visited \<and> nb \<notin> set cyc \<and> lowDegree stats nb
        \<and> (ch \<in> set (terminalChains adj stats cyc (path @ [nb]) (setAdd nb visited) nb)
            \<or> (3 \<le> length (path @ [nb]) \<and> ch = path @ [nb])
            \<or> ch \<in> set (dfsShell adj stats cyc (path @ [nb]) (setAdd nb visited) nb)))"
proof -
  define F where "F = (\<lambda>nb. if nb \<in> set visited then []
        else if nb \<in> set cyc then []
        else
          (let totalTx = totalTxOf stats nb
           in if totalTx \<ge> 2 \<and> totalTx \<le> 3 then
                (let path' = path @ [nb];
                     visited' = setAdd nb visited
                 in terminalChains adj stats cyc path' visited' nb
                    @ (if length path' \<ge> 3 then [path'] else [])
                    @ dfsShell adj stats cyc path' visited' nb)
              else []))"
  have "dfsShell adj stats cyc path visited current = concat (map F (neighbors adj current))"
    unfolding F_def by (simp only: dfsShell.simps [of adj stats cyc path visited current])
  then have "ch \<in> set (dfsShell adj stats cyc path visited current)
      \<longleftrightarrow> (\<exists>nb \<in> set (neighbors adj current). ch \<in> set (F nb))"
    by (simp only: in_concat_map)
  also have "\<dots> \<longleftrightarrow> (\<exists>nb \<in> set (neighbors adj current).
        nb \<notin> set visited \<and> nb \<notin> set cyc \<and> lowDegree stats nb
        \<and> (ch \<in> set (terminalChains adj stats cyc (path @ [nb]) (setAdd nb visited) nb)
            \<or> (3 \<le> length (path @ [nb]) \<and> ch = path @ [nb])
            \<or> ch \<in> set (dfsShell adj stats cyc (path @ [nb]) (setAdd nb visited) nb)))"
    by (rule bex_cong [OF refl]) (auto simp: F_def Let_def lowDegree_def)
  finally show ?thesis .
qed

lemma terminalChains_mem:
  "ch \<in> set (terminalChains adj stats cyc path visited nb) \<longleftrightarrow>
     (\<exists>nn \<in> set (neighbors adj nb).
        nn \<notin> set visited \<and> nn \<notin> set cyc \<and> \<not> lowDegree stats nn \<and> 2 \<le> length path
        \<and> ch = path @ [nn])"
  unfolding terminalChains_def in_concat_map
  by (rule bex_cong [OF refl]) (auto simp: Let_def lowDegree_def)

lemma dfsShell_sound:
  assumes "ch \<in> set (dfsShell adj stats cyc path visited current)"
    and "set visited = set path" "path \<noteq> []" "last path = current" "distinct path"
    and "set path \<inter> set cyc = {}" "successively (edge adj) path"
    and "list_all (lowDegree stats) (tl path)"
  shows "shellChain adj stats (set cyc) ch \<and> hd ch = hd path"
  using assms
proof (induction adj stats cyc path visited current arbitrary: ch rule: dfsShell.induct)
  case (1 adj stats cyc path visited current)
  from "1.prems"(1) obtain nb where nb: "nb \<in> set (neighbors adj current)"
    and fresh: "nb \<notin> set visited" and nocyc: "nb \<notin> set cyc" and low: "lowDegree stats nb"
    and alts: "ch \<in> set (terminalChains adj stats cyc (path @ [nb]) (setAdd nb visited) nb)
            \<or> (3 \<le> length (path @ [nb]) \<and> ch = path @ [nb])
            \<or> ch \<in> set (dfsShell adj stats cyc (path @ [nb]) (setAdd nb visited) nb)"
    unfolding dfsShell_mem [of ch adj stats cyc path visited current] by blast
  let ?p = "path @ [nb]"
  have vis: "set (setAdd nb visited) = set ?p" using "1.prems"(2) by simp
  have dist: "distinct ?p" using "1.prems"(2,5) fresh by simp
  have disj: "set ?p \<inter> set cyc = {}" using "1.prems"(6) nocyc by simp
  have succ: "successively (edge adj) ?p"
    using "1.prems"(3,4,7) nb by (simp add: successively_snoc edge_def)
  have tlp: "tl ?p = tl path @ [nb]" using "1.prems"(3) by simp
  have lows: "list_all (lowDegree stats) (tl ?p)"
    using "1.prems"(8) low by (simp add: tlp)
  have hdp: "hd ?p = hd path" using "1.prems"(3) by simp
  from alts show ?case
  proof (elim disjE conjE)
    assume "ch \<in> set (terminalChains adj stats cyc ?p (setAdd nb visited) nb)"
    then obtain nn where nn: "nn \<in> set (neighbors adj nb)" "nn \<notin> set (setAdd nb visited)"
      "nn \<notin> set cyc" "2 \<le> length ?p" and ch: "ch = ?p @ [nn]"
      unfolding terminalChains_mem by blast
    have "nn \<notin> set ?p" using nn(2) "1.prems"(2) by simp
    then have "distinct ch" using dist ch by auto
    moreover have "3 \<le> length ch" using nn(4) ch by simp
    moreover have "successively (edge adj) ch"
      unfolding ch successively_snoc [of _ ?p nn] using succ nn(1) by (simp add: edge_def)
    moreover have "set ch \<inter> set cyc = {}" using disj nn(3) ch by simp
    moreover have "butlast (tl ch) = tl ?p"
      using ch "1.prems"(3) by (simp add: butlast_append)
    moreover have "hd ch = hd path" using ch "1.prems"(3) by simp
    ultimately show ?thesis
      using lows by (simp add: shellChain_def)
  next
    assume len: "3 \<le> length ?p" and ch: "ch = ?p"
    have "butlast (tl ch) = tl path" using ch "1.prems"(3) by (simp add: butlast_append)
    then show ?thesis
      using ch len dist succ disj "1.prems"(8) hdp by (simp add: shellChain_def)
  next
    assume rec: "ch \<in> set (dfsShell adj stats cyc ?p (setAdd nb visited) nb)"
    have "shellChain adj stats (set cyc) ch \<and> hd ch = hd ?p"
    proof (rule "1.IH" [OF nb fresh nocyc refl _ refl refl rec vis _ _ dist disj succ lows])
      show "2 \<le> totalTxOf stats nb \<and> totalTxOf stats nb \<le> 3"
        using low by (simp add: lowDegree_def)
    qed simp_all
    with hdp show ?thesis by simp
  qed
qed

lemma allShellChains_sound:
  assumes "ch \<in> set (allShellChains adj stats cyc)"
  shows "shellChain adj stats (set cyc) ch"
proof -
  from assms obtain start where "ch \<in> set (shellChainsFrom adj stats cyc start)"
    unfolding allShellChains_def in_concat_map by blast
  then have nocyc: "start \<notin> set cyc"
    and ch: "ch \<in> set (dfsShell adj stats cyc [start] (setAdd start []) start)"
    by (auto simp: shellChainsFrom_def split: if_splits)
  from dfsShell_sound [OF ch] nocyc show ?thesis by simp
qed

lemma subset_elimination_subset:
  "ch \<in> set (foldl subsetStep acc chs) \<Longrightarrow> ch \<in> set acc \<or> ch \<in> set chs"
proof (induction chs arbitrary: acc)
  case Nil
  then show ?case by simp
next
  case (Cons a chs)
  from Cons.prems have "ch \<in> set (foldl subsetStep (subsetStep acc a) chs)" by simp
  from Cons.IH [OF this] show ?case
    by (auto simp: subsetStep_def split: if_splits)
qed

lemma detectShellNetworks_sound:
  assumes "ch \<in> set (detectShellNetworks adj stats cyc)"
  shows "shellChain adj stats (set cyc) ch"
proof -
  from assms have "ch \<in> set (foldl subsetStep []
      (sort_key (\<lambda>c. - int (length c)) (allShellChains adj stats cyc)))"
    by (simp add: detectShellNetworks_def Let_def)
  from subset_elimination_subset [OF this]
  have "ch \<in> set (allShellChains adj stats cyc)" by simp
  then show ?thesis by (rule allShellChains_sound)
qed

section \<open>Shell rings\<close>

lemma edge_transactions:
  "edge (buildAdjacencyList txs) x y \<longleftrightarrow> (\<exists>t \<in> set txs. sender_id t = x \<and> receiver_id t = y)"
  by (auto simp: edge_def set_neighbors)

lemma shell_ring_chain:
  assumes "r \<in> set (fraudRings (assembleRings g txs ftxs))" "pattern_type r = ''shell_network''"
  shows "shellChain (buildAdjacencyList ftxs) (computeAccountStats g ftxs)
           (membersOf (filter (\<lambda>r. pattern_type r = ''cycle'') (fraudRings (assembleRings g txs ftxs))))
           (member_accounts r)"
proof -
  from ring_provenance [OF assms(1)] assms(2)
  obtain c where c: "c \<in> set (detectShellNetworks (buildAdjacencyList ftxs) (computeAccountStats g ftxs)
                         (cycleNodes (assembleRings g txs ftxs)))"
    and m: "member_accounts r = c"
    by (auto simp: ringShape_def)
  have cyc: "set (cycleNodes (assembleRings g txs ftxs))
      = membersOf (filter (\<lambda>r. pattern_type r = ''cycle'') (fraudRings (assembleRings g txs ftxs)))"
    using ringInv_assemble [of g txs ftxs] by (simp add: ringInv_def)
  from detectShellNetworks_sound [OF c] show ?thesis
    unfolding cyc m .
qed

text \<open>
  Claim C4. Every emitted ring of type \<open>shell_network\<close> has at least 3 members, all
  distinct and in path order: each member paid the next one in a transaction of the
  filtered batch. Every interior member (all but the first and the last) has 2 or 3
  transaction endpoints in the statistics of the filtered batch, and no member of the
  ring is a member of an emitted cycle ring.
\<close>

theorem shell_rings:
  "\<forall>r \<in> set (fraud_rings (analyzeTransactions g txs)).
     pattern_type r = ''shell_network'' \<longrightarrow>
       3 \<le> length (member_accounts r)
     \<and> distinct (member_accounts r)
     \<and> successively (\<lambda>x y. \<exists>t \<in> set (filteredOf txs). sender_id t = x \<and> receiver_id t = y)
         (member_accounts r)
     \<and> list_all (\<lambda>a. totalTxOf (computeAccountStats g (filteredOf txs)) a \<in> {2, 3})
         (butlast (tl (member_accounts r)))
     \<and> (\<forall>r' \<in> set (fraud_rings (analyzeTransactions g txs)).
          pattern_type r' = ''cycle'' \<longrightarrow> set (member_accounts r) \<inter> set (member_accounts r') = {})"
proof (intro ballI impI)
  fix r assume r: "r \<in> set (fraud_rings (analyzeTransactions g txs))"
    and shell: "pattern_type r = ''shell_network''"
  let ?st = "assembleRings g txs (filteredOf txs)"
  from r have rings: "fraud_rings (analyzeTransactions g txs) = fraudRings ?st"
    and r': "r \<in> set (fraudRings ?st)"
    by (auto simp: analyze_fraud_rings split: if_splits)
  from shell_ring_chain [OF r' shell]
  have ch: "shellChain (buildAdjacencyList (filteredOf txs)) (computeAccountStats g (filteredOf txs))
           (membersOf (filter (\<lambda>r. pattern_type r = ''cycle'') (fraudRings ?st))) (member_accounts r)" .
  have low: "lowDegree st a = (totalTxOf st a \<in> {2, 3})" for st a
    by (auto simp: lowDegree_def)
  have edges: "edge (buildAdjacencyList (filteredOf txs))
      = (\<lambda>x y. \<exists>t \<in> set (filteredOf txs). sender_id t = x \<and> receiver_id t = y)"
    by (intro ext) (rule edge_transactions)
  have cyc: "set (member_accounts r) \<inter> set (member_accounts r') = {}"
    if "r' \<in> set (fraud_rings (analyzeTransactions g txs))" "pattern_type r' = ''cycle''" for r'
  proof -
    have "set (member_accounts r') \<subseteq> membersOf (filter (\<lambda>r. pattern_type r = ''cycle'') (fraudRings ?st))"
      using that rings by (auto simp: membersOf_def)
    with ch show ?thesis by (auto simp: shellChain_def)
  qed
  from ch cyc show "3 \<le> length (member_accounts r)
     \<and> distinct (member_accounts r)
     \<and> successively (\<lambda>x y. \<exists>t \<in> set (filteredOf txs). sender_id t = x \<and> receiver_id t = y)
         (member_accounts r)
     \<and> list_all (\<lambda>a. totalTxOf (computeAccountStats g (filteredOf txs)) a \<in> {2, 3})
         (butlast (tl (member_accounts r)))
     \<and> (\<forall>r' \<in> set (fraud_rings (analyzeTransactions g txs)).
          pattern_type r' = ''cycle'' \<longrightarrow> set (member_accounts r) \<inter> set (member_accounts r') = {})"
    unfolding shellChain_def edges low by blast
qed

lemma cycleAndChain_rings:
  "map (\<lambda>r. (ring_id r, pattern_type r, member_accounts r, risk_score r))
     (fraud_rings (analyzeTransactions (\<lambda>_. None) cycleAndChain))
   = [(''RING_001'', ''cycle'', [''A'', ''B'', ''C''], 85),
      (''RING_002'', ''shell_network'', [''P'', ''Q'', ''R'', ''S''], 82)]"
  by (simp add: cycleAndChain_def mkTx_def engine_eval cong: let_weak_cong)

theorem shell_rings_witness:
  "fraud_rings (analyzeTransactions (\<lambda>_. None) cycleAndChain) ! 1
     \<in> set (fraud_rings (analyzeTransactions (\<lambda>_. None) cycleAndChain))
   \<and> pattern_type (fraud_rings (analyzeTransactions (\<lambda>_. None) cycleAndChain) ! 1) = ''shell_network''
   \<and> member_accounts (fraud_rings (analyzeTransactions (\<lambda>_. None) cycleAndChain) ! 1)
       = [''P'', ''Q'', ''R'', ''S'']
   \<and> fraud_rings (analyzeTransactions (\<lambda>_. None) cycleAndChain) ! 0
     \<in> set (fraud_rings (analyzeTransactions (\<lambda>_. None) cycleAndChain))
   \<and> pattern_type (fraud_rings (analyzeTransactions (\<lambda>_. None) cycleAndChain) ! 0) = ''cycle''
   \<and> list_all (\<lambda>a. totalTxOf (computeAccountStats (\<lambda>_. None) (filteredOf cycleAndChain)) a \<in> {2, 3})
        [''Q'', ''R'']
   \<and> set [''P'', ''Q'', ''R'', ''S'']
       \<inter> set (member_accounts (fraud_rings (analyzeTransactions (\<lambda>_. None) cycleAndChain) ! 0)) = {}"
proof -
  let ?rs = "fraud_rings (analyzeTransactions (\<lambda>_. None) cycleAndChain)"
  have len: "length ?rs = 2"
    using arg_cong [OF cycleAndChain_rings, of length] by simp
  have r1: "pattern_type (?rs ! 1) = ''shell_network''" "member_accounts (?rs ! 1) = [''P'', ''Q'', ''R'', ''S'']"
    and r0: "pattern_type (?rs ! 0) = ''cycle''"
    using arg_cong [OF cycleAndChain_rings, of "\<lambda>l. l ! 1"]
      arg_cong [OF cycleAndChain_rings, of "\<lambda>l. l ! 0"] len
    by simp_all
  have m1: "?rs ! 1 \<in> set ?rs" and m0: "?rs ! 0 \<in> set ?rs"
    using len by simp_all
  from shell_rings [of "\<lambda>_. None" cycleAndChain] m1 r1(1)
  have "list_all (\<lambda>a. totalTxOf (computeAccountStats (\<lambda>_. None) (filteredOf cycleAndChain)) a \<in> {2, 3})
         (butlast (tl (member_accounts (?rs ! 1))))
     \<and> (\<forall>r' \<in> set ?rs. pattern_type r' = ''cycle''
            \<longrightarrow> set (member_accounts (?rs ! 1)) \<inter> set (member_accounts r') = {})"
    by blast
  with m0 r0 r1 m1 show ?thesis
    by auto
qed

section \<open>Ring members are accounts of the batch\<close>

lemma successively_incoming:
  "successively P xs \<Longrightarrow> x \<in> set (tl xs) \<Longrightarrow> \<exists>y \<in> set xs. P y x"
proof (induction xs)
  case Nil
  then show ?case by simp
next
  case (Cons a xs)
  from Cons.prems(2) have x: "x \<in> set xs" by simp
  then have ne: "xs \<noteq> []" by auto
  with Cons.prems(1) have a: "P a (hd xs)" and s: "successively P xs"
    by (simp_all add: successively_Cons)
  show ?case
  proof (cases "x = hd xs")
    case True
    with a show ?thesis by auto
  next
    case False
    with x ne have "x \<in> set (tl xs)" by (cases xs) auto
    from Cons.IH [OF s this] show ?thesis by auto
  qed
qed

lemma successively_outgoing:
  "successively P xs \<Longrightarrow> 2 \<le> length xs \<Longrightarrow> \<exists>y. P (hd xs) y"
  by (cases xs; cases "tl xs") auto

lemma edge_accounts:
  "edge (buildAdjacencyList txs) x y \<Longrightarrow> x \<in> set (getAllAccounts txs) \<and> y \<in> set (getAllAccounts txs)"
  by (auto simp: edge_transactions set_getAllAccounts)

lemma path_accounts:
  assumes "successively (edge (buildAdjacencyList txs)) xs" "2 \<le> length xs"
  shows "set xs \<subseteq> set (getAllAccounts txs)"
proof
  fix x assume x: "x \<in> set xs"
  from assms(2) have ne: "xs \<noteq> []" by auto
  show "x \<in> set (getAllAccounts txs)"
  proof (cases "x = hd xs")
    case True
    with successively_outgoing [OF assms] edge_accounts show ?thesis by blast
  next
    case False
    with x ne have "x \<in> set (tl xs)" by (cases xs) auto
    with successively_incoming [OF assms(1)] edge_accounts show ?thesis by blast
  qed
qed

lemma getAllAccounts_mono:
  "set ftxs \<subseteq> set txs \<Longrightarrow> set (getAllAccounts ftxs) \<subseteq> set (getAllAccounts txs)"
  by (auto simp: set_getAllAccounts)

lemma filteredOf_subset: "set (filteredOf txs) \<subseteq> set txs"
  by (auto simp: filteredOf_def removeLegitimateTransactions_def)

lemma ring_members_accounts:
  assumes "r \<in> set (fraudRings (assembleRings g txs ftxs))" "set ftxs \<subseteq> set txs"
  shows "set (member_accounts r) \<subseteq> set (getAllAccounts txs)"
  using ring_provenance [OF assms(1)]
proof (elim disjE bexE)
  fix c assume "c \<in> set (detectCycles (buildAdjacencyList ftxs) (getAllAccounts ftxs))"
    and s: "ringShape ''cycle'' c (cycleRisk (length c)) r"
  from detectCycles_sound [OF this(1)] have "simpleCycle (buildAdjacencyList ftxs) c" by simp
  then have "set c \<subseteq> set (getAllAccounts ftxs)"
    by (intro path_accounts) (simp_all add: simpleCycle_def)
  with s getAllAccounts_mono [OF assms(2)] show ?thesis
    by (auto simp: ringShape_def)
next
  fix e assume e: "e \<in> set (fanInAccountsOf g txs)"
    and s: "ringShape ''fan_in'' (fst e # fanInSenders (snd e))
              (fanRisk (fanInTemporal (snd e)) (length (fanInSenders (snd e)))) r"
  from fanIn_entry [OF e] s show ?thesis
    by (auto simp: ringShape_def set_getAllAccounts)
next
  fix e assume e: "e \<in> set (fanOutAccountsOf g txs)"
    and s: "ringShape ''fan_out'' (fst e # fanOutReceivers (snd e))
              (fanRisk (fanOutTemporal (snd e)) (length (fanOutReceivers (snd e)))) r"
  from fanOut_entry [OF e] s show ?thesis
    by (auto simp: ringShape_def set_getAllAccounts)
next
  fix c assume "c \<in> set (detectShellNetworks (buildAdjacencyList ftxs) (computeAccountStats g ftxs)
                         (cycleNodes (assembleRings g txs ftxs)))"
    and s: "ringShape ''shell_network'' c (shellRisk (length c)) r"
  from detectShellNetworks_sound [OF this(1)]
  have "set c \<subseteq> set (getAllAccounts ftxs)"
    by (intro path_accounts) (simp_all add: shellChain_def)
  with s getAllAccounts_mono [OF assms(2)] show ?thesis
    by (auto simp: ringShape_def)
qed

section \<open>Suspicious accounts and nodes of ring members\<close>

lemma count_distinct:
  "distinct xs \<Longrightarrow> length (filter (\<lambda>x. x = a) xs) = (if a \<in> set xs then 1 else 0)"
  by (induction xs) auto

lemma suspiciousEntry_ids:
  "map account_id (suspiciousEntry fi fo stats st e)
     = (case mapGet (accountRings st) (fst e) of None \<Rightarrow> []
        | Some rs \<Rightarrow> if rs = [] then [] else [fst e])"
  by (simp add: suspiciousEntry_def Let_def split: option.splits)

lemma suspicious_ids_subseq:
  "map account_id (concat (map (suspiciousEntry fi fo stats st) pats))
     = filter (\<lambda>k. case mapGet (accountRings st) k of None \<Rightarrow> False | Some rs \<Rightarrow> rs \<noteq> [])
         (map fst pats)"
  by (induction pats) (auto simp: suspiciousEntry_ids split: option.splits)

lemma suspicious_patterns:
  "s \<in> set (concat (map (suspiciousEntry fi fo stats st) pats))
     \<Longrightarrow> (account_id s, detected_patterns s) \<in> set pats"
  by (auto simp: suspiciousEntry_def Let_def split: option.splits if_splits)

lemma count_sort_key:
  "length (filter P (sort_key f xs)) = length (filter P xs)"
  by (simp add: filter_sort)

lemma count_by_id:
  "length (filter (\<lambda>s. account_id s = a) xs) = length (filter (\<lambda>k. k = a) (map account_id xs))"
  by (simp add: filter_map comp_def)

lemma member_is_suspicious:
  assumes "ringInv st" "r \<in> set (fraudRings st)" "a \<in> set (member_accounts r)"
  shows "length (filter (\<lambda>s. account_id s = a) (buildSuspiciousAccounts fi fo stats st)) = 1"
    and "\<forall>s \<in> set (buildSuspiciousAccounts fi fo stats st). detected_patterns s \<noteq> []"
proof -
  from assms have mem: "a \<in> membersOf (fraudRings st)"
    by (auto simp: membersOf_def)
  from assms(1) have dp: "distinct (map fst (accountPatterns st))"
    and dr: "distinct (map fst (accountRings st))"
    and np: "list_all (\<lambda>e. snd e \<noteq> []) (accountPatterns st)"
    and nr: "list_all (\<lambda>e. snd e \<noteq> []) (accountRings st)"
    and kp: "fst ` set (accountPatterns st) = membersOf (fraudRings st)"
    and kr: "fst ` set (accountRings st) = membersOf (fraudRings st)"
    by (simp_all add: ringInv_def)
  have good: "(case mapGet (accountRings st) k of None \<Rightarrow> False | Some rs \<Rightarrow> rs \<noteq> [])
                = (k \<in> fst ` set (accountRings st))" for k
  proof (cases "mapGet (accountRings st) k")
    case None
    then have "k \<notin> fst ` set (accountRings st)"
      by (simp add: mapGet_def map_of_eq_None_iff)
    with None show ?thesis by simp
  next
    case (Some rs)
    then have "(k, rs) \<in> set (accountRings st)" by (simp add: mapGet_def map_of_SomeD)
    with nr Some show ?thesis by (force simp: list_all_iff)
  qed
  let ?ids = "map account_id (concat (map (suspiciousEntry fi fo stats st) (accountPatterns st)))"
  have ids: "?ids = map fst (accountPatterns st)"
    unfolding suspicious_ids_subseq good kr kp [symmetric] by simp
  have "length (filter (\<lambda>s. account_id s = a) (buildSuspiciousAccounts fi fo stats st))
      = length (filter (\<lambda>s. account_id s = a)
          (concat (map (suspiciousEntry fi fo stats st) (accountPatterns st))))"
    unfolding buildSuspiciousAccounts_def by (rule count_sort_key)
  also have "\<dots> = length (filter (\<lambda>k. k = a) ?ids)"
    by (rule count_by_id)
  also have "\<dots> = 1"
  proof -
    have "a \<in> set (map fst (accountPatterns st))" using mem kp by simp
    with count_distinct [OF dp, of a] show ?thesis
      unfolding ids by (simp only: if_True)
  qed
  finally show "length (filter (\<lambda>s. account_id s = a) (buildSuspiciousAccounts fi fo stats st)) = 1" .
  show "\<forall>s \<in> set (buildSuspiciousAccounts fi fo stats st). detected_patterns s \<noteq> []"
  proof
    fix s assume "s \<in> set (buildSuspiciousAccounts fi fo stats st)"
    then have "s \<in> set (concat (map (suspiciousEntry fi fo stats st) (accountPatterns st)))"
      by (simp add: buildSuspiciousAccounts_def)
    from suspicious_patterns [OF this] np show "detected_patterns s \<noteq> []"
      by (force simp: list_all_iff)
  qed
qed

lemma buildNode_suspicious:
  "suspicious (buildNode legit stats st sus a) = (a \<in> account_id ` set sus)"
  by (simp add: buildNode_def Let_def)

lemma filter_eq_distinct:
  "distinct xs \<Longrightarrow> a \<in> set xs \<Longrightarrow> filter (\<lambda>x. x = a) xs = [a]"
  by (induction xs) (auto simp: filter_empty_conv)

lemma filter_node_id:
  "filter (\<lambda>n. node_id n = a) (map (buildNode legit stats st sus) xs)
     = map (buildNode legit stats st sus) (filter (\<lambda>x. x = a) xs)"
  by (simp add: filter_map comp_def buildNode_stats)

text \<open>
  Claim C10. For every batch, every account in the \<open>member_accounts\<close> of an emitted
  fraud ring has exactly one entry in \<open>suspicious_accounts\<close>, that entry has a non-empty
  \<open>detected_patterns\<close> list, and the account has exactly one node record, whose
  \<open>suspicious\<close> flag is true.
\<close>

theorem ring_members_are_suspicious:
  assumes "r \<in> set (fraud_rings (analyzeTransactions g txs))"
    and "a \<in> set (member_accounts r)"
  shows "(\<exists>s. filter (\<lambda>s. account_id s = a) (suspicious_accounts (analyzeTransactions g txs)) = [s]
              \<and> detected_patterns s \<noteq> [])
       \<and> (\<exists>n. filter (\<lambda>n. node_id n = a) (nodes (analyzeTransactions g txs)) = [n]
              \<and> suspicious n)"
proof -
  let ?st = "assembleRings g txs (filteredOf txs)"
  let ?sus = "suspicious_accounts (analyzeTransactions g txs)"
  from assms(1) have ne: "filteredOf txs \<noteq> []"
    and r: "r \<in> set (fraudRings ?st)"
    by (simp_all add: analyze_fraud_rings split: if_splits)
  from ne have sus: "?sus = buildSuspiciousAccounts (fst (detectSmurfing g txs))
      (snd (detectSmurfing g txs)) (computeAccountStats g (filteredOf txs)) ?st"
    by (simp add: analyze_suspicious)
  have one: "length (filter (\<lambda>s. account_id s = a) ?sus) = 1"
    and pats: "\<forall>s \<in> set ?sus. detected_patterns s \<noteq> []"
    unfolding sus by (rule member_is_suspicious [OF ringInv_assemble r assms(2)])+
  from one obtain s where s: "filter (\<lambda>s. account_id s = a) ?sus = [s]"
    by (auto simp: length_Suc_conv)
  then have "s \<in> set (filter (\<lambda>s. account_id s = a) ?sus)" by simp
  then have mem: "s \<in> set ?sus" and id: "account_id s = a" by simp_all
  from mem pats have "detected_patterns s \<noteq> []" by blast
  with s have first: "\<exists>s. filter (\<lambda>s. account_id s = a) ?sus = [s] \<and> detected_patterns s \<noteq> []"
    by blast
  from ring_members_accounts [OF r filteredOf_subset] assms(2)
  have acc: "a \<in> set (getAllAccounts txs)" by blast
  let ?node = "buildNode (detectLegitimateAccounts txs) (computeAccountStats g txs) ?st ?sus"
  from ne have "filter (\<lambda>n. node_id n = a) (nodes (analyzeTransactions g txs))
      = map ?node (filter (\<lambda>x. x = a) (getAllAccounts txs))"
    by (simp only: analyze_nodes if_False filter_node_id)
  also have "\<dots> = [?node a]"
    by (simp add: filter_eq_distinct [OF distinct_getAllAccounts acc])
  finally have n: "filter (\<lambda>n. node_id n = a) (nodes (analyzeTransactions g txs)) = [?node a]" .
  from mem id have "suspicious (?node a)"
    unfolding buildNode_suspicious by force
  with n first show ?thesis by blast
qed

theorem ring_members_are_suspicious_witness:
  "hd (fraud_rings (analyzeTransactions (\<lambda>_. None) pureCycle))
      \<in> set (fraud_rings (analyzeTransactions (\<lambda>_. None) pureCycle))
   \<and> ''A'' \<in> set (member_accounts (hd (fraud_rings (analyzeTransactions (\<lambda>_. None) pureCycle))))
   \<and> (\<exists>s. filter (\<lambda>s. account_id s = ''A'')
             (suspicious_accounts (analyzeTransactions (\<lambda>_. None) pureCycle)) = [s]
          \<and> detected_patterns s \<noteq> [])
   \<and> (\<exists>n. filter (\<lambda>n. node_id n = ''A'') (nodes (analyzeTransactions (\<lambda>_. None) pureCycle)) = [n]
          \<and> suspicious n)"
proof -
  let ?rs = "fraud_rings (analyzeTransactions (\<lambda>_. None) pureCycle)"
  from pureCycle_rings have ne: "?rs \<noteq> []" by auto
  then have m: "hd ?rs \<in> set ?rs" by simp
  from pureCycle_rings ne have "member_accounts (hd ?rs) = [''A'', ''B'', ''C'']"
    by (cases ?rs) auto
  then have a: "''A'' \<in> set (member_accounts (hd ?rs))" by simp
  from ring_members_are_suspicious [OF m a] m a show ?thesis by blast
qed

section \<open>Every detected cycle has a ring\<close>

lemma dedupSet_emit_grows:
  "k \<in> set (ringDeduplicationSet st)
     \<Longrightarrow> k \<in> set (ringDeduplicationSet (emitRing ptype members risk (tagMember p) st))"
  "k \<in> set (ringDeduplicationSet st)
     \<Longrightarrow> k \<in> set (ringDeduplicationSet (emitRing ptype members risk (\<lambda>rid. cycleMember rid n) st))"
  by (auto simp: emitRing_def Let_def)

lemma dedupSet_emit_key:
  "makeRingDeduplicationKey members ptype
     \<in> set (ringDeduplicationSet (emitRing ptype members risk (\<lambda>rid. cycleMember rid n) st))"
  by (auto simp: emitRing_def Let_def)

lemma dedupSet_cycles:
  "k \<in> set (ringDeduplicationSet st) \<or> (\<exists>c \<in> set cs. k = makeRingDeduplicationKey c ''cycle'')
     \<Longrightarrow> k \<in> set (ringDeduplicationSet (foldl cycleStep st cs))"
proof (induction cs arbitrary: st)
  case Nil
  then show ?case by simp
next
  case (Cons c cs)
  show ?case
    unfolding foldl_Cons
  proof (rule Cons.IH)
    from Cons.prems
    show "k \<in> set (ringDeduplicationSet (cycleStep st c))
            \<or> (\<exists>c \<in> set cs. k = makeRingDeduplicationKey c ''cycle'')"
      by (auto simp: cycleStep_emit dedupSet_emit_grows dedupSet_emit_key)
  qed
qed

lemma dedupSet_fanIn:
  "k \<in> set (ringDeduplicationSet st) \<Longrightarrow> k \<in> set (ringDeduplicationSet (foldl fanInStep st es))"
  by (induction es arbitrary: st) (simp_all add: fanInStep_emit dedupSet_emit_grows)

lemma dedupSet_fanOut:
  "k \<in> set (ringDeduplicationSet st) \<Longrightarrow> k \<in> set (ringDeduplicationSet (foldl fanOutStep st es))"
  by (induction es arbitrary: st) (simp_all add: fanOutStep_emit dedupSet_emit_grows)

lemma dedupSet_shell:
  "k \<in> set (ringDeduplicationSet st) \<Longrightarrow> k \<in> set (ringDeduplicationSet (foldl shellStep st cs))"
  by (induction cs arbitrary: st) (simp_all add: shellStep_emit dedupSet_emit_grows)

lemma detected_cycle_key:
  assumes "c \<in> set (detectCycles (buildAdjacencyList ftxs) (getAllAccounts ftxs))"
  shows "makeRingDeduplicationKey c ''cycle'' \<in> ringKey ` set (fraudRings (assembleRings g txs ftxs))"
proof -
  have "makeRingDeduplicationKey c ''cycle'' \<in> set (ringDeduplicationSet (assembleRings g txs ftxs))"
    unfolding assembleRings_eval Let_def
    by (intro dedupSet_shell dedupSet_fanOut dedupSet_fanIn dedupSet_cycles disjI2 bexI [OF refl assms])
  moreover have "map ringKey (fraudRings (assembleRings g txs ftxs))
      = ringDeduplicationSet (assembleRings g txs ftxs)"
    using ringInv_assemble [of g txs ftxs] by (simp add: ringInv_def)
  ultimately show ?thesis
    by (metis list.set_map)
qed

text \<open>The number of emitted rings is at least the number of distinct keys of detected cycles.\<close>

lemma rings_at_least:
  assumes "inj_on key I" "finite I"
    and "\<And>i. i \<in> I \<Longrightarrow> \<exists>c \<in> set (detectCycles (buildAdjacencyList ftxs) (getAllAccounts ftxs)).
            makeRingDeduplicationKey c ''cycle'' = key i"
  shows "card I \<le> length (fraudRings (assembleRings g txs ftxs))"
proof -
  let ?rs = "fraudRings (assembleRings g txs ftxs)"
  have "key ` I \<subseteq> ringKey ` set ?rs"
    using assms(3) detected_cycle_key [of _ ftxs g txs] by (metis image_subsetI)
  then have "card (key ` I) \<le> card (ringKey ` set ?rs)"
    by (intro card_mono) simp_all
  also have "\<dots> \<le> card (set ?rs)" by (intro card_image_le) simp
  also have "\<dots> \<le> length ?rs" by (rule card_length)
  finally show ?thesis using assms(1) by (simp add: card_image)
qed

section \<open>Joining names that do not hold the separator\<close>

lemma append_sep_eq:
  assumes "c \<notin> set x" "c \<notin> set y" "x @ c # r = y @ c # r'"
  shows "x = y \<and> r = r'"
proof -
  have "takeWhile (\<lambda>d. d \<noteq> c) (x @ c # r) = x" "takeWhile (\<lambda>d. d \<noteq> c) (y @ c # r') = y"
    using assms(1,2) by (auto simp: takeWhile_append2 takeWhile_tail)
  with assms(3) have "x = y" by simp
  with assms(3) show ?thesis by simp
qed

lemma join_sep_mem: "2 \<le> length xs \<Longrightarrow> c \<in> set (join [c] xs)"
  by (induction "[c]" xs rule: join.induct) auto

lemma join_inj:
  assumes "\<forall>s \<in> set xs \<union> set ys. c \<notin> set s" "join [c] xs = join [c] ys" "xs \<noteq> []" "ys \<noteq> []"
  shows "xs = ys"
  using assms
proof (induction "[c]" xs arbitrary: ys rule: join.induct)
  case 1
  then show ?case by simp
next
  case (2 x)
  show ?case
  proof (cases "2 \<le> length ys")
    case True
    from join_sep_mem [OF this, of c] 2 show ?thesis by auto
  next
    case False
    with 2 obtain y where "ys = [y]" by (cases ys) (auto simp: Suc_le_eq)
    with 2 show ?thesis by simp
  qed
next
  case (3 x y zs)
  show ?case
  proof (cases ys)
    case Nil
    with 3 show ?thesis by simp
  next
    case (Cons u us)
    show ?thesis
    proof (cases us)
      case Nil
      with Cons 3 join_sep_mem [of "x # y # zs" c] show ?thesis by auto
    next
      case (Cons v vs)
      with \<open>ys = u # us\<close> 3
      have eq: "x @ c # join [c] (y # zs) = u @ c # join [c] (v # vs)"
        and nx: "c \<notin> set x" and nu: "c \<notin> set u" by simp_all
      from append_sep_eq [OF nx nu eq] have "x = u" "join [c] (y # zs) = join [c] (v # vs)"
        by simp_all
      moreover from this(2) 3 Cons \<open>ys = u # us\<close> have "y # zs = v # vs"
        by (intro 3(1)) auto
      ultimately show ?thesis using Cons \<open>ys = u # us\<close> by simp
    qed
  qed
qed

section \<open>Accounts that the legitimacy filter keeps\<close>

lemma in_mapModify:
  "(a, d) \<in> set (mapModify k f m) \<longleftrightarrow> (\<exists>d0. (a, d0) \<in> set m \<and> d = (if a = k then f d0 else d0))"
  by (force simp: mapModify_def split: if_splits)

lemma in_mapInit:
  "(a, d) \<in> set (mapInit k v m)
     \<Longrightarrow> (a, d) \<in> set m \<or> (a = k \<and> d = v \<and> k \<notin> fst ` set m)"
  by (auto simp: mapInit_def mapHas_def split: if_splits)

lemma gatherStep_entry:
  assumes "(a, d) \<in> set (gatherStep m t)"
  shows "\<exists>d0. ((a, d0) \<in> set m \<or> (d0 = emptyTxs \<and> (a = sender_id t \<or> a = receiver_id t)))
           \<and> uniqueReceivers d = (if a = sender_id t then setAdd (receiver_id t) (uniqueReceivers d0)
                                   else uniqueReceivers d0)
           \<and> uniqueSenders d = (if a = receiver_id t then setAdd (sender_id t) (uniqueSenders d0)
                                 else uniqueSenders d0)"
proof -
  let ?fs = "\<lambda>s. s\<lparr>sent := sent s @ [t],
                     uniqueReceivers := setAdd (receiver_id t) (uniqueReceivers s),
                     txTotalSent := txTotalSent s + amount t\<rparr>"
  let ?fr = "\<lambda>r. r\<lparr>received := received r @ [t],
                     uniqueSenders := setAdd (sender_id t) (uniqueSenders r),
                     txTotalReceived := txTotalReceived r + amount t\<rparr>"
  let ?m1 = "mapInit (sender_id t) emptyTxs m"
  let ?m2 = "mapModify (sender_id t) ?fs ?m1"
  let ?m3 = "mapInit (receiver_id t) emptyTxs ?m2"
  from assms have "(a, d) \<in> set (mapModify (receiver_id t) ?fr ?m3)"
    by (simp add: gatherStep_def Let_def)
  then obtain d3 where d3: "(a, d3) \<in> set ?m3" and d: "d = (if a = receiver_id t then ?fr d3 else d3)"
    unfolding in_mapModify by blast
  from in_mapInit [OF d3] show ?thesis
  proof
    assume "(a, d3) \<in> set ?m2"
    then obtain d1 where d1: "(a, d1) \<in> set ?m1" and d3': "d3 = (if a = sender_id t then ?fs d1 else d1)"
      unfolding in_mapModify by blast
    from in_mapInit [OF d1] have "(a, d1) \<in> set m \<or> (d1 = emptyTxs \<and> (a = sender_id t \<or> a = receiver_id t))"
      by auto
    with d d3' show ?thesis by (intro exI [of _ d1]) auto
  next
    assume "a = receiver_id t \<and> d3 = emptyTxs \<and> receiver_id t \<notin> fst ` set ?m2"
    then have "a = receiver_id t" "d3 = emptyTxs" "a \<noteq> sender_id t" by auto
    with d show ?thesis by (intro exI [of _ emptyTxs]) simp
  qed
qed

lemma gather_entries:
  "(a, d) \<in> set (foldl gatherStep [] txs)
     \<Longrightarrow> distinct (uniqueReceivers d) \<and> distinct (uniqueSenders d)
       \<and> set (uniqueReceivers d) \<subseteq> receiver_id ` {t \<in> set txs. sender_id t = a}
       \<and> set (uniqueSenders d) \<subseteq> sender_id ` {t \<in> set txs. receiver_id t = a}
       \<and> a \<in> sender_id ` set txs \<union> receiver_id ` set txs"
proof (induction txs arbitrary: a d rule: rev_induct)
  case Nil
  then show ?case by simp
next
  case (snoc t txs)
  from snoc.prems have "(a, d) \<in> set (gatherStep (foldl gatherStep [] txs) t)" by simp
  from gatherStep_entry [OF this] obtain d0
    where d0: "(a, d0) \<in> set (foldl gatherStep [] txs)
               \<or> (d0 = emptyTxs \<and> (a = sender_id t \<or> a = receiver_id t))"
      and r: "uniqueReceivers d = (if a = sender_id t then setAdd (receiver_id t) (uniqueReceivers d0)
                                   else uniqueReceivers d0)"
      and s: "uniqueSenders d = (if a = receiver_id t then setAdd (sender_id t) (uniqueSenders d0)
                                 else uniqueSenders d0)"
    by blast
  have inv: "distinct (uniqueReceivers d0) \<and> distinct (uniqueSenders d0)
       \<and> set (uniqueReceivers d0) \<subseteq> receiver_id ` {t \<in> set txs. sender_id t = a}
       \<and> set (uniqueSenders d0) \<subseteq> sender_id ` {t \<in> set txs. receiver_id t = a}"
    and acc: "a \<in> sender_id ` set (txs @ [t]) \<union> receiver_id ` set (txs @ [t])"
    using d0
  proof -
    show "distinct (uniqueReceivers d0) \<and> distinct (uniqueSenders d0)
       \<and> set (uniqueReceivers d0) \<subseteq> receiver_id ` {t \<in> set txs. sender_id t = a}
       \<and> set (uniqueSenders d0) \<subseteq> sender_id ` {t \<in> set txs. receiver_id t = a}"
    proof (cases "(a, d0) \<in> set (foldl gatherStep [] txs)")
      case True
      from snoc.IH [OF this] show ?thesis by blast
    next
      case False
      with d0 show ?thesis by (simp add: emptyTxs_def)
    qed
    show "a \<in> sender_id ` set (txs @ [t]) \<union> receiver_id ` set (txs @ [t])"
    proof (cases "(a, d0) \<in> set (foldl gatherStep [] txs)")
      case True
      from snoc.IH [OF this] show ?thesis by auto
    next
      case False
      with d0 show ?thesis by auto
    qed
  qed
  show ?case
  proof (intro conjI)
    from inv r show "distinct (uniqueReceivers d)" by (simp add: setAdd_def)
    from inv s show "distinct (uniqueSenders d)" by (simp add: setAdd_def)
    from inv r show "set (uniqueReceivers d) \<subseteq> receiver_id ` {t' \<in> set (txs @ [t]). sender_id t' = a}"
      by (auto simp: setAdd_def split: if_splits)
    from inv s show "set (uniqueSenders d) \<subseteq> sender_id ` {t' \<in> set (txs @ [t]). receiver_id t' = a}"
      by (auto simp: setAdd_def split: if_splits)
    from acc show "a \<in> sender_id ` set (txs @ [t]) \<union> receiver_id ` set (txs @ [t])" .
  qed
qed

lemma isLegitimate_needs:
  "isLegitimate a d
     \<Longrightarrow> hasBusinessName a \<or> 5 \<le> length (uniqueReceivers d) \<or> 5 \<le> length (uniqueSenders d)"
  by (auto simp: isLegitimate_def Let_def split: if_splits)

lemma short_list:
  assumes "distinct xs" "set xs \<subseteq> f ` {t \<in> T. g t = a}" "\<forall>t \<in> T. f t = h (g t)"
  shows "length xs \<le> 1"
proof -
  from assms(2,3) have "set xs \<subseteq> {h a}" by auto
  then have "card (set xs) \<le> card {h a}" by (intro card_mono) simp_all
  with assms(1) show ?thesis by (simp add: distinct_card)
qed

text \<open>No account is held to be legitimate in a batch where every account pays one
  account at most and is paid by one account at most, and no account has a business name.\<close>

lemma no_legitimate_accounts:
  assumes "\<forall>t \<in> set txs. receiver_id t = f (sender_id t)"
    and "\<forall>t \<in> set txs. sender_id t = h (receiver_id t)"
    and "\<forall>a \<in> sender_id ` set txs \<union> receiver_id ` set txs. \<not> hasBusinessName a"
  shows "detectLegitimateAccounts txs = []"
proof -
  have "\<not> isLegitimate a d" if e: "(a, d) \<in> set (foldl gatherStep [] txs)" for a d
  proof
    assume l: "isLegitimate a d"
    from gather_entries [OF e] have dr: "distinct (uniqueReceivers d)" and ds: "distinct (uniqueSenders d)"
      and sr: "set (uniqueReceivers d) \<subseteq> receiver_id ` {t \<in> set txs. sender_id t = a}"
      and ss: "set (uniqueSenders d) \<subseteq> sender_id ` {t \<in> set txs. receiver_id t = a}"
      and acc: "a \<in> sender_id ` set txs \<union> receiver_id ` set txs"
      by blast+
    from short_list [OF dr sr assms(1)] short_list [OF ds ss assms(2)] acc assms(3)
      isLegitimate_needs [OF l]
    show False by auto
  qed
  then show ?thesis
    by (auto simp: detectLegitimateAccounts_def Let_def filter_empty_conv)
qed

section \<open>Account names made of \<open>A\<close>, \<open>B\<close>, \<open>C\<close> and digits\<close>

lemma strIncludes_set: "strIncludes s kw \<Longrightarrow> set kw \<subseteq> set s"
proof (induction s)
  case Nil
  then show ?case by simp
next
  case (Cons c s)
  then show ?case using set_mono_prefix [of kw "c # s"] by auto
qed

lemma toUpperChar_plain: "\<forall>c \<in> set ''ABC0123456789''. toUpperChar c = c"
  by (simp add: toUpperChar_def)

lemma toUpperCase_plain:
  assumes "set s \<subseteq> set ''ABC0123456789''"
  shows "toUpperCase s = s"
  unfolding toUpperCase_def
proof (rule map_idI)
  fix c assume "c \<in> set s"
  with assms have "c \<in> set ''ABC0123456789''" by (rule subsetD)
  with toUpperChar_plain show "toUpperChar c = c" by (rule bspec)
qed

lemma keyword_letters: "\<forall>kw \<in> set businessKeywords. \<not> set kw \<subseteq> set ''ABC0123456789''"
  by (simp add: businessKeywords_def)

lemma no_business_name:
  assumes "set a \<subseteq> set ''ABC0123456789''"
  shows "\<not> hasBusinessName a"
proof
  assume "hasBusinessName a"
  then obtain kw where kw: "kw \<in> set businessKeywords" and "strIncludes a kw"
    by (auto simp: hasBusinessName_def Let_def list_ex_iff toUpperCase_plain [OF assms])
  from strIncludes_set [OF this(2)] assms keyword_letters kw show False by blast
qed

lemma stringOfNat_inj: "stringOfNat i = stringOfNat j \<Longrightarrow> i = j"
  by (metis natOfDigits_stringOfNat)

lemma acct_chars:
  assumes "r \<in> set ''ABC''"
  shows "set (acct r i) \<subseteq> set ''ABC0123456789''"
proof -
  have a: "set ''ABC'' \<subseteq> set ''ABC0123456789''" and b: "set ''0123456789'' \<subseteq> set ''ABC0123456789''"
    by simp_all
  from a assms have r: "r \<in> set ''ABC0123456789''" by (rule subsetD)
  from stringOfNat_digits b have s: "set (stringOfNat i) \<subseteq> set ''ABC0123456789''"
    by (rule subset_trans)
  have "set (acct r i) = insert r (set (stringOfNat i))" by (simp add: acct_def)
  with r s show ?thesis by (simp only: insert_subset)
qed

lemma acct_inj [simp]: "acct r i = acct r' j \<longleftrightarrow> r = r' \<and> i = j"
proof -
  have "acct r i = acct r' j \<longleftrightarrow> r = r' \<and> stringOfNat i = stringOfNat j"
    by (simp add: acct_def)
  with stringOfNat_inj [of i j] show ?thesis by blast
qed

section \<open>A batch of disjoint 3-cycles\<close>

lemma triangles_mem: "t \<in> set (triangles n) \<longleftrightarrow> (\<exists>i<n. t \<in> set (triangle i))"
  by (auto simp: triangles_def)

lemma triangle_accounts:
  assumes "a \<in> sender_id ` set (triangles n) \<union> receiver_id ` set (triangles n)"
  shows "\<exists>r \<in> set ''ABC''. \<exists>i<n. a = acct r i"
proof -
  from assms obtain i t where i: "i < n" and t: "t \<in> set (triangle i)"
    and a: "a = sender_id t \<or> a = receiver_id t"
    by (auto simp: triangles_mem)
  from t a have "a = acct (CHR ''A'') i \<or> a = acct (CHR ''B'') i \<or> a = acct (CHR ''C'') i"
    by (auto simp: triangle_def mkTx_def)
  moreover have "CHR ''A'' \<in> set ''ABC''" "CHR ''B'' \<in> set ''ABC''" "CHR ''C'' \<in> set ''ABC''"
    by simp_all
  ultimately show ?thesis using i by blast
qed

lemma triangle_account_chars:
  assumes "a \<in> set (getAllAccounts (triangles n))"
  shows "set a \<subseteq> set ''ABC0123456789''"
proof -
  from assms obtain r i where "r \<in> set ''ABC''" "a = acct r i"
    using triangle_accounts [of a n] unfolding set_getAllAccounts by blast
  then show ?thesis using acct_chars by simp
qed

lemma triangles_not_legitimate: "detectLegitimateAccounts (triangles n) = []"
proof (rule no_legitimate_accounts)
  show "\<forall>t \<in> set (triangles n). receiver_id t
      = (\<lambda>a. (if hd a = CHR ''A'' then CHR ''B'' else if hd a = CHR ''B'' then CHR ''C'' else CHR ''A'') # tl a)
          (sender_id t)"
    by (auto simp: triangles_mem triangle_def mkTx_def acct_def)
  show "\<forall>t \<in> set (triangles n). sender_id t
      = (\<lambda>a. (if hd a = CHR ''A'' then CHR ''C'' else if hd a = CHR ''B'' then CHR ''A'' else CHR ''B'') # tl a)
          (receiver_id t)"
    by (auto simp: triangles_mem triangle_def mkTx_def acct_def)
  show "\<forall>a \<in> sender_id ` set (triangles n) \<union> receiver_id ` set (triangles n). \<not> hasBusinessName a"
  proof
    fix a assume "a \<in> sender_id ` set (triangles n) \<union> receiver_id ` set (triangles n)"
    then have "a \<in> set (getAllAccounts (triangles n))" by (simp add: set_getAllAccounts)
    from no_business_name [OF triangle_account_chars [OF this]] show "\<not> hasBusinessName a" .
  qed
qed

lemma triangles_filtered: "filteredOf (triangles n) = triangles n"
  by (simp add: filteredOf_def removeLegitimateTransactions_def triangles_not_legitimate)

lemma plain_no_separator:
  assumes "set s \<subseteq> set ''ABC0123456789''"
  shows "CHR ''|'' \<notin> set s" and "CHR '','' \<notin> set s"
proof -
  have "CHR ''|'' \<notin> set ''ABC0123456789''" "CHR '','' \<notin> set ''ABC0123456789''"
    by simp_all
  with assms show "CHR ''|'' \<notin> set s" and "CHR '','' \<notin> set s"
    by (meson subsetD)+
qed

lemma triangle_edges:
  assumes "i < n"
  shows "edge (buildAdjacencyList (triangles n)) (acct (CHR ''A'') i) (acct (CHR ''B'') i)"
    and "edge (buildAdjacencyList (triangles n)) (acct (CHR ''B'') i) (acct (CHR ''C'') i)"
    and "edge (buildAdjacencyList (triangles n)) (acct (CHR ''C'') i) (acct (CHR ''A'') i)"
proof -
  have "set (triangle i) \<subseteq> set (triangles n)"
    using assms by (auto simp: triangles_mem)
  then show "edge (buildAdjacencyList (triangles n)) (acct (CHR ''A'') i) (acct (CHR ''B'') i)"
    and "edge (buildAdjacencyList (triangles n)) (acct (CHR ''B'') i) (acct (CHR ''C'') i)"
    and "edge (buildAdjacencyList (triangles n)) (acct (CHR ''C'') i) (acct (CHR ''A'') i)"
    unfolding edge_transactions by (force simp: triangle_def mkTx_def)+
qed

lemma triangle_normal:
  "normalizeCycle [acct (CHR ''A'') i, acct (CHR ''B'') i, acct (CHR ''C'') i]
     = [acct (CHR ''A'') i, acct (CHR ''B'') i, acct (CHR ''C'') i]"
proof -
  have "minMember [acct (CHR ''A'') i, acct (CHR ''B'') i, acct (CHR ''C'') i] = acct (CHR ''A'') i"
    by (simp add: minMember_def acct_def)
  then show ?thesis
    by (simp add: normalizeCycle_def indexOf_def)
qed

lemma triangle_detected:
  assumes "i < n"
  shows "[acct (CHR ''A'') i, acct (CHR ''B'') i, acct (CHR ''C'') i]
           \<in> set (detectCycles (buildAdjacencyList (triangles n)) (getAllAccounts (triangles n)))"
proof -
  let ?adj = "buildAdjacencyList (triangles n)"
  let ?accs = "getAllAccounts (triangles n)"
  let ?p = "[acct (CHR ''A'') i, acct (CHR ''B'') i, acct (CHR ''C'') i]"
  have sc: "simpleCycle ?adj ?p"
    using triangle_edges [OF assms] by (simp add: simpleCycle_def)
  then have "successively (edge ?adj) ?p" by (simp add: simpleCycle_def)
  then have pa: "set ?p \<subseteq> set ?accs" by (rule path_accounts) simp
  then have "hd ?p \<in> set ?accs" by simp
  from allCycles_complete [OF sc this] have "?p \<in> set (allCycles ?adj ?accs)" .
  from dedup_covers [OF this, of "([], [])"]
  have "join ''|'' ?p \<in> set (fst (foldl dedupStep ([], []) (allCycles ?adj ?accs)))"
    by (simp only: triangle_normal)
  moreover have "map (join ''|'') (detectCycles ?adj ?accs)
      = fst (foldl dedupStep ([], []) (allCycles ?adj ?accs))"
    unfolding detectCycles_def Let_def
    using dedup_invariant [of "([], [])" "allCycles ?adj ?accs"] by simp
  ultimately have "join ''|'' ?p \<in> join ''|'' ` set (detectCycles ?adj ?accs)"
    by (metis list.set_map)
  then obtain c where c: "c \<in> set (detectCycles ?adj ?accs)" and j: "join ''|'' c = join ''|'' ?p"
    by auto
  from detectCycles_sound [OF c] have "simpleCycle ?adj c" by simp
  then have sc': "successively (edge ?adj) c" and len: "3 \<le> length c"
    by (simp_all add: simpleCycle_def)
  from sc' have ca: "set c \<subseteq> set ?accs" by (rule path_accounts) (use len in simp)
  have "CHR ''|'' \<notin> set s" if "s \<in> set c \<union> set ?p" for s
  proof -
    from that ca pa have "s \<in> set ?accs" by blast
    from triangle_account_chars [OF this] show ?thesis by (rule plain_no_separator)
  qed
  then have "c = ?p"
    using j len by (intro join_inj [of c ?p "CHR ''|''"]) auto
  with c show ?thesis by simp
qed

lemma triangle_key_inj:
  "inj_on (\<lambda>i. makeRingDeduplicationKey [acct (CHR ''A'') i, acct (CHR ''B'') i, acct (CHR ''C'') i] ''cycle'')
     {..<n}"
proof (rule inj_onI)
  fix i j
  let ?t = "\<lambda>i. [acct (CHR ''A'') i, acct (CHR ''B'') i, acct (CHR ''C'') i]"
  assume "makeRingDeduplicationKey (?t i) ''cycle'' = makeRingDeduplicationKey (?t j) ''cycle''"
  then have eq: "join '','' (sort (?t i)) = join '','' (sort (?t j))"
    by (simp add: makeRingDeduplicationKey_def)
  have abc: "CHR ''A'' \<in> set ''ABC''" "CHR ''B'' \<in> set ''ABC''" "CHR ''C'' \<in> set ''ABC''"
    by simp_all
  have "CHR '','' \<notin> set s" if "s \<in> set (?t k)" for s k
  proof -
    from that have "s = acct (CHR ''A'') k \<or> s = acct (CHR ''B'') k \<or> s = acct (CHR ''C'') k"
      by simp
    with abc acct_chars have "set s \<subseteq> set ''ABC0123456789''" by metis
    then show ?thesis by (rule plain_no_separator)
  qed
  then have "\<forall>s \<in> set (sort (?t i)) \<union> set (sort (?t j)). CHR '','' \<notin> set s"
    unfolding set_sort by blast
  moreover have "sort (?t i) \<noteq> []" "sort (?t j) \<noteq> []"
    by (metis length_sort length_0_conv list.distinct(1))+
  ultimately have "sort (?t i) = sort (?t j)"
    using eq by (intro join_inj [of "sort (?t i)" "sort (?t j)" "CHR '',''"])
  then have "set (?t i) = set (?t j)" by (metis set_sort)
  then have "acct (CHR ''A'') i \<in> set (?t j)" by (metis list.set_intros(1))
  then show "i = j" by simp
qed

lemma triangles_rings: "n \<le> length (fraud_rings (analyzeTransactions g (triangles n)))"
proof (cases "n = 0")
  case True
  then show ?thesis by simp
next
  case False
  then have "triangles n \<noteq> []" by (cases n) (simp_all add: triangles_def triangle_def)
  then have rs: "fraud_rings (analyzeTransactions g (triangles n))
      = fraudRings (assembleRings g (triangles n) (triangles n))"
    by (simp add: analyze_fraud_rings triangles_filtered)
  have "card {..<n} \<le> length (fraudRings (assembleRings g (triangles n) (triangles n)))"
    by (rule rings_at_least [OF triangle_key_inj]) (use triangle_detected in auto)
  with rs show ?thesis by simp
qed

text \<open>
  Claim C5 says that every ring identifier is \<open>RING_\<close> and three digits. A thousand
  disjoint 3-cycles make at least a thousand rings, whatever the timestamps are read as
  (lemma \<open>triangles_rings\<close>), and the thousandth ring has the identifier \<open>RING_1000\<close>:
  \<open>padStart\<close> pads to three characters and never shortens.
\<close>

theorem thousandth_ring_id:
  "999 < length (fraud_rings (analyzeTransactions (\<lambda>_. None) (triangles 1000)))
   \<and> ring_id (fraud_rings (analyzeTransactions (\<lambda>_. None) (triangles 1000)) ! 999) = ''RING_1000''"
proof -
  let ?rs = "fraud_rings (analyzeTransactions (\<lambda>_. None) (triangles 1000))"
  from triangles_rings [of 1000 "\<lambda>_. None"] have len: "999 < length ?rs" by simp
  have "map ring_id ?rs = map (\<lambda>i. ringIdOf (Suc i)) [0 ..< length ?rs]"
    by (simp add: analyze_fraud_rings assembled_ring_ids)
  from arg_cong [OF this, of "\<lambda>l. l ! 999"] len
  have "ring_id (?rs ! 999) = ringIdOf 1000" by simp
  also have "\<dots> = ''RING_1000''"
    by (simp add: ringIdOf_def padStart_def stringOfNat.simps digit_def)
  finally show ?thesis using len by simp
qed

theorem ring_ids_contiguous_witness:
  "0 < length (fraud_rings (analyzeTransactions (\<lambda>_. None) pureCycle))
   \<and> ring_id (fraud_rings (analyzeTransactions (\<lambda>_. None) pureCycle) ! 0) = ''RING_001''
   \<and> ringIdFormat 1 ''RING_001''"
proof -
  let ?rs = "fraud_rings (analyzeTransactions (\<lambda>_. None) pureCycle)"
  from pureCycle_rings have len: "0 < length ?rs" by auto
  from pureCycle_rings have id: "ring_id (?rs ! 0) = ''RING_001''"
    by (cases ?rs) auto
  from ring_ids_contiguous [of "\<lambda>_. None" pureCycle] len
  have "ringIdFormat (0 + 1) (ring_id (?rs ! 0))" by blast
  with len id show ?thesis by simp
qed

end
